theory Spec2Isabelle
  imports Complex_Main "HOL-Library.Sublist"
begin

section \<open>Transcript segments\<close>

text \<open>
  A transcript segment as the speech service hands it to the hook
  (\<^verbatim>\<open>TranscriptSegment\<close> of the design document): \<^verbatim>\<open>id\<close>, \<^verbatim>\<open>text\<close>,
  \<^verbatim>\<open>timestamp\<close>, \<^verbatim>\<open>confidence\<close>, \<^verbatim>\<open>isFinal\<close>, \<^verbatim>\<open>duration\<close>. The fields
  \<^verbatim>\<open>id\<close> and \<^verbatim>\<open>text\<close> are called \<open>seg_id\<close> and \<open>seg_text\<close> here, since both
  names are taken in Isabelle.
\<close>

record segment =
  seg_id :: string
  seg_text :: string
  timestamp :: int
  confidence :: real
  isFinal :: bool
  duration :: int

section \<open>The state of the \<^verbatim>\<open>useTranscription\<close> hook\<close>

text \<open>
  The error object stored by \<^verbatim>\<open>setError\<close>: a message, the cause and the time of
  \<^verbatim>\<open>Date.now()\<close>.
\<close>

record error_info =
  message :: string
  cause :: string
  err_timestamp :: nat

text \<open>
  The hook's \<^verbatim>\<open>useState\<close> cells and refs. The speech service object itself lives
  outside the repository's sources; the ref either holds one (\<open>Some\<close> of a handle)
  or is \<^verbatim>\<open>null\<close>.
\<close>

record transcription =
  speechServiceRef :: "nat option"
  sessionStartTimeRef :: "nat option"
  isInitialized :: bool
  isListening :: bool
  isPaused :: bool
  currentTranscript :: string
  transcriptSegments :: "segment list"
  error :: "error_info option"

definition initial_transcription :: transcription where
  "initial_transcription =
     \<lparr> speechServiceRef = None, sessionStartTimeRef = None, isInitialized = False,
       isListening = False, isPaused = False, currentTranscript = [],
       transcriptSegments = [], error = None \<rparr>"

subsection \<open>Segment callbacks\<close>

text \<open>
  \<^verbatim>\<open>speechService.onTranscriptUpdate\<close>: the interim text is shown, and a segment that
  is not final replaces every segment that is not final.
\<close>

definition onTranscriptUpdate :: "segment \<Rightarrow> transcription \<Rightarrow> transcription" where
  "onTranscriptUpdate seg st =
     (let st1 = st\<lparr>currentTranscript := (if isFinal seg then [] else seg_text seg)\<rparr>
      in if \<not> isFinal seg
         then st1\<lparr>transcriptSegments := filter isFinal (transcriptSegments st1) @ [seg]\<rparr>
         else st1)"

text \<open>
  \<^verbatim>\<open>speechService.onSegmentComplete\<close>: every segment with the same id is dropped and
  the segment is appended.
\<close>

definition onSegmentComplete :: "segment \<Rightarrow> transcription \<Rightarrow> transcription" where
  "onSegmentComplete seg st =
     st\<lparr>transcriptSegments :=
          filter (\<lambda>s. seg_id s \<noteq> seg_id seg) (transcriptSegments st) @ [seg]\<rparr>"

text \<open>The two callbacks as events, and a run of the hook over a sequence of them.\<close>

datatype segment_event = TranscriptUpdate segment | SegmentComplete segment

fun segment_step :: "transcription \<Rightarrow> segment_event \<Rightarrow> transcription" where
  "segment_step st (TranscriptUpdate seg) = onTranscriptUpdate seg st"
| "segment_step st (SegmentComplete seg) = onSegmentComplete seg st"

definition run_segments :: "segment_event list \<Rightarrow> transcription \<Rightarrow> transcription" where
  "run_segments evs st = foldl segment_step st evs"

subsection \<open>Reading the transcript\<close>

definition getAllSegments :: "transcription \<Rightarrow> segment list" where
  "getAllSegments st = filter isFinal (transcriptSegments st)"

text \<open>\<^verbatim>\<open>Array.prototype.join\<close> on an array of strings.\<close>

fun join :: "string \<Rightarrow> string list \<Rightarrow> string" where
  "join sep [] = []"
| "join sep [x] = x"
| "join sep (x # y # ys) = x @ sep @ join sep (y # ys)"

definition getFullTranscript :: "transcription \<Rightarrow> string" where
  "getFullTranscript st =
     (let finalSegments = filter isFinal (transcriptSegments st)
      in join '' '' (map seg_text finalSegments))"


section \<open>The hook's actions\<close>

text \<open>
  The speech service is an external collaborator. A synchronous call into it is given by
  the callbacks it fires before it returns and by whether it returns a value or throws; an
  awaited promise is given by what it settles with. A callback reads the refs as they are
  and the state cells named in its \<^verbatim>\<open>useCallback\<close> dependencies as the render that created
  it saw them; \<^verbatim>\<open>stopListening\<close> and \<^verbatim>\<open>forceStop\<close> have no dependencies and read no cell.
\<close>

datatype 'a outcome = Returns 'a | Throws string

datatype 'a settled = Resolved 'a | Rejected string

datatype service_event =
    SegmentEvent segment_event
  | StatusChange string
  | ServiceError error_info

text \<open>\<^verbatim>\<open>speechService.onStatusChange\<close>: a \<^verbatim>\<open>switch\<close> on the status string, with no default.\<close>

definition onStatusChange :: "string \<Rightarrow> transcription \<Rightarrow> transcription" where
  "onStatusChange status st =
     (if status = ''initialized'' then st\<lparr>isInitialized := True\<rparr>
      else if status = ''listening'' then st\<lparr>isListening := True, isPaused := False\<rparr>
      else if status = ''paused'' then st\<lparr>isPaused := True\<rparr>
      else if status = ''stopped'' then st\<lparr>isListening := False, isPaused := False\<rparr>
      else if status = ''error'' then st\<lparr>isListening := False, isPaused := False\<rparr>
      else st)"

definition onError :: "error_info \<Rightarrow> transcription \<Rightarrow> transcription" where
  "onError errorInfo st = st\<lparr>error := Some errorInfo\<rparr>"

fun service_step :: "transcription \<Rightarrow> service_event \<Rightarrow> transcription" where
  "service_step st (SegmentEvent ev) = segment_step st ev"
| "service_step st (StatusChange status) = onStatusChange status st"
| "service_step st (ServiceError errorInfo) = onError errorInfo st"

definition run_service :: "service_event list \<Rightarrow> transcription \<Rightarrow> transcription" where
  "run_service evs st = foldl service_step st evs"

text \<open>
  \<^verbatim>\<open>stopListening\<close>. Without a service it returns \<^verbatim>\<open>false\<close> at once. Otherwise the error is
  cleared and the service is asked to stop; whether that returns or throws, the listening
  and paused flags and the interim text are reset afterwards. \<open>now\<close> is \<^verbatim>\<open>Date.now()\<close>.
\<close>

definition stopListening ::
  "nat \<Rightarrow> service_event list \<Rightarrow> bool outcome \<Rightarrow> transcription \<Rightarrow> bool \<times> transcription" where
  "stopListening now fired result st =
     (if speechServiceRef st = None then (False, st)
      else
        let st1 = st\<lparr>error := None\<rparr>;
            st2 = run_service fired st1
        in case result of
             Returns success \<Rightarrow>
               (success,
                st2\<lparr>sessionStartTimeRef := None, isListening := False, isPaused := False,
                    currentTranscript := []\<rparr>)
           | Throws err \<Rightarrow>
               (False,
                st2\<lparr>error := Some \<lparr>message = ''Failed to stop speech recognition'',
                                    cause = err, err_timestamp = now\<rparr>,
                    isListening := False, isPaused := False, currentTranscript := []\<rparr>))"

text \<open>
  \<^verbatim>\<open>pauseListening\<close>. The callback is created by \<^verbatim>\<open>useCallback\<close> with the dependencies
  \<^verbatim>\<open>isListening\<close> and \<^verbatim>\<open>isPaused\<close>: its guard reads the two flags as the render that
  created it saw them (\<open>captured_isListening\<close>, \<open>captured_isPaused\<close>), and the service ref
  as it is. Past the guard, the error is cleared and the result is the service's, or
  \<^verbatim>\<open>false\<close> with an error stored when the service throws.
\<close>

definition pauseListening ::
  "nat \<Rightarrow> bool \<Rightarrow> bool \<Rightarrow> service_event list \<Rightarrow> bool outcome \<Rightarrow> transcription
     \<Rightarrow> bool \<times> transcription" where
  "pauseListening now captured_isListening captured_isPaused fired result st =
     (if speechServiceRef st = None \<or> \<not> captured_isListening \<or> captured_isPaused
      then (False, st)
      else
        let st1 = st\<lparr>error := None\<rparr>;
            st2 = run_service fired st1
        in case result of
             Returns r \<Rightarrow> (r, st2)
           | Throws err \<Rightarrow>
               (False,
                st2\<lparr>error := Some \<lparr>message = ''Failed to pause speech recognition'',
                                    cause = err, err_timestamp = now\<rparr>\<rparr>))"

text \<open>
  \<^verbatim>\<open>resumeListening\<close> is asynchronous: it awaits the service's promise. Its guard reads
  \<^verbatim>\<open>isPaused\<close> as the render that created the callback saw it (\<open>captured_isPaused\<close>). The
  result is what the returned promise resolves to, \<open>None\<close> when the service's promise never
  settles.
\<close>

definition resumeListening ::
  "nat \<Rightarrow> bool \<Rightarrow> service_event list \<Rightarrow> bool settled option \<Rightarrow> transcription
     \<Rightarrow> bool option \<times> transcription" where
  "resumeListening now captured_isPaused fired result st =
     (if speechServiceRef st = None \<or> \<not> captured_isPaused then (Some False, st)
      else
        let st1 = st\<lparr>error := None\<rparr>;
            st2 = run_service fired st1
        in case result of
             None \<Rightarrow> (None, st2)
           | Some (Resolved r) \<Rightarrow> (Some r, st2)
           | Some (Rejected err) \<Rightarrow>
               (Some False,
                st2\<lparr>error := Some \<lparr>message = ''Failed to resume speech recognition'',
                                    cause = err, err_timestamp = now\<rparr>\<rparr>))"

text \<open>
  \<^verbatim>\<open>startListening\<close>, in two parts: up to the \<^verbatim>\<open>await\<close> of the service's promise (the flag
  says whether the service was called), and from its settlement on. The guard reads
  \<^verbatim>\<open>isListening\<close> as the render that created the callback saw it.
\<close>

definition startListening_begin :: "bool \<Rightarrow> transcription \<Rightarrow> bool \<times> transcription" where
  "startListening_begin seen_isListening st =
     (if speechServiceRef st = None \<or> seen_isListening then (False, st)
      else (True, st\<lparr>error := None\<rparr>))"

definition startListening_settle ::
  "nat \<Rightarrow> bool settled \<Rightarrow> transcription \<Rightarrow> bool \<times> transcription" where
  "startListening_settle now result st =
     (case result of
        Resolved success \<Rightarrow>
          (success,
           if success
           then st\<lparr>sessionStartTimeRef := Some now, transcriptSegments := [],
                   currentTranscript := []\<rparr>
           else st)
      | Rejected err \<Rightarrow>
          (False,
           st\<lparr>error := Some \<lparr>message = ''Failed to start speech recognition'',
                               cause = err, err_timestamp = now\<rparr>\<rparr>))"

text \<open>
  \<^verbatim>\<open>forceStop\<close>, in two parts. Up to the \<^verbatim>\<open>await\<close>: without a service it returns \<^verbatim>\<open>false\<close>;
  otherwise the flags and the interim text are reset and \<^verbatim>\<open>cleanup()\<close> is raced against a
  timer. From the settlement of that race on: \<^verbatim>\<open>true\<close> when it resolved; when it rejected
  (the cleanup failed, or the timer won) the error is stored, the service ref is set to
  \<^verbatim>\<open>null\<close> and the result is \<^verbatim>\<open>false\<close>.
\<close>

definition forceStop_begin :: "transcription \<Rightarrow> bool \<times> transcription" where
  "forceStop_begin st =
     (if speechServiceRef st = None then (False, st)
      else (True,
            st\<lparr>error := None, isListening := False, isPaused := False,
                currentTranscript := [], sessionStartTimeRef := None\<rparr>))"

definition forceStop_settle ::
  "nat \<Rightarrow> unit settled \<Rightarrow> transcription \<Rightarrow> bool \<times> transcription" where
  "forceStop_settle now result st =
     (case result of
        Resolved _ \<Rightarrow> (True, st)
      | Rejected err \<Rightarrow>
          (False,
           st\<lparr>error := Some \<lparr>message = ''Failed to force stop speech recognition'',
                               cause = err, err_timestamp = now\<rparr>,
               speechServiceRef := None\<rparr>))"

definition clearTranscript :: "transcription \<Rightarrow> transcription" where
  "clearTranscript st = st\<lparr>transcriptSegments := [], currentTranscript := []\<rparr>"

subsection \<open>Promises raced against timers\<close>

text \<open>
  A promise by the time, in milliseconds after its creation, at which it settles, and by
  what it settles with; \<open>Never\<close> is a promise that stays pending. \<^verbatim>\<open>Promise.race\<close> of two
  promises created together settles with the one that settles first (with the first listed
  when both settle at the same time).
\<close>

datatype 'a promise = Settles nat "'a settled" | Never

definition timeoutPromise :: "nat \<Rightarrow> string \<Rightarrow> 'a promise" where
  "timeoutPromise delay msg = Settles delay (Rejected msg)"

fun race :: "'a promise \<Rightarrow> 'a promise \<Rightarrow> 'a promise" where
  "race Never q = q"
| "race (Settles t a) Never = Settles t a"
| "race (Settles t a) (Settles u b) = (if t \<le> u then Settles t a else Settles u b)"

text \<open>The two timer delays of the stop path, as written in the source.\<close>

definition forceStopTimeoutMs :: nat where
  "forceStopTimeoutMs = 5000"

definition stopDeadlineMs :: nat where
  "stopDeadlineMs = 3000"

text \<open>
  The promise returned by \<^verbatim>\<open>forceStop()\<close>, given whether a service is attached and how
  \<^verbatim>\<open>cleanup()\<close> behaves: the function catches every rejection, so its promise never rejects.
\<close>

definition forceStop_promise :: "bool \<Rightarrow> unit promise \<Rightarrow> bool promise" where
  "forceStop_promise has_service cleanupPromise =
     (if \<not> has_service then Settles 0 (Resolved False)
      else case race cleanupPromise (timeoutPromise forceStopTimeoutMs ''Force stop timeout'') of
             Settles t (Resolved _) \<Rightarrow> Settles t (Resolved True)
           | Settles t (Rejected err) \<Rightarrow> Settles t (Resolved False)
           | Never \<Rightarrow> Never)"

text \<open>
  What the dashboard awaits when it stops: \<^verbatim>\<open>forceStop()\<close> raced against the dashboard's
  stop timer.
\<close>

definition stop_wait :: "bool \<Rightarrow> unit promise \<Rightarrow> bool promise" where
  "stop_wait has_service cleanupPromise =
     race (forceStop_promise has_service cleanupPromise)
          (timeoutPromise stopDeadlineMs ''Stop timeout'')"

section \<open>The dashboard\<close>

text \<open>
  \<^verbatim>\<open>MainDashboard\<close> owns the recording session. The summary hook and the storage service
  are external collaborators: the model records the calls made to them and takes what
  their promises settle with from the environment.
\<close>

record summary_info =
  content :: string
  processingTime :: nat

record session_stats =
  stat_duration :: nat
  transcriptWords :: nat
  summaryGenerated :: bool

text \<open>
  The object handed to \<^verbatim>\<open>storageService.saveMeetingSession\<close>. \<open>session_created\<close> is the
  \<^verbatim>\<open>Date.now()\<close> that the id and the date are made of.
\<close>

record session_data =
  session_created :: nat
  session_duration :: nat
  transcript :: "segment list"
  session_summary :: "summary_info option"
  platform :: string
  audioQuality :: real
  metadata_processingTime :: nat

text \<open>The \<^verbatim>\<open>await\<close> at which a stop that is under way is suspended.\<close>

datatype stop_phase = AwaitStopRace | AwaitSummary | AwaitStorageInit | AwaitSave

text \<open>
  The component state. \<open>isRecordingSession\<close> and \<open>sessionStats\<close> are the \<^verbatim>\<open>useState\<close>
  cells; \<open>rendered_isRecordingSession\<close> and \<open>rendered_duration\<close> are the values that the
  callbacks of the last render have captured, and \<open>stop_duration\<close> is the duration that
  the handler invocation which is stopping the session has captured. \<open>transcriptionRef\<close> is
  \<^verbatim>\<open>transcriptionRef.current\<close>, the transcription hook as of the last render, and \<open>hook\<close> is
  the hook's live state; in the same way \<open>currentSummary\<close> is the summary hook's live
  summary and \<open>summaryRef\<close> is what \<^verbatim>\<open>summaryRef.current\<close> holds of it, as of the last
  render. \<open>notifications\<close> logs the \<^verbatim>\<open>addNotification\<close> calls (message and
  severity). \<open>interval_active\<close> and \<open>timeout_armed\<close> stand for the auto-summary interval and
  the timer held in \<^verbatim>\<open>autoSummaryTimeoutRef\<close>.
\<close>

record dashboard =
  clock :: nat
  isRecordingSession :: bool
  rendered_isRecordingSession :: bool
  sessionStats :: session_stats
  rendered_duration :: nat
  stop_duration :: nat
  isStoppingRef :: bool
  dash_sessionStartTimeRef :: "nat option"
  activeTab :: nat
  notifications :: "(string \<times> string) list"
  hook :: transcription
  transcriptionRef :: transcription
  currentSummary :: "summary_info option"
  summaryRef :: "summary_info option"
  generateSummary_calls :: "segment list list"
  autoGenerateSummary_calls :: "segment list list"
  storage_isInitialized :: bool
  storage_initialize_calls :: nat
  saveMeetingSession_calls :: "session_data list"
  starts_awaiting_service :: nat
  starts_returned :: nat
  forceStops_pending :: nat
  stop_task :: "stop_phase option"
  interval_active :: bool
  timeout_armed :: bool

definition addNotification :: "string \<Rightarrow> string \<Rightarrow> dashboard \<Rightarrow> dashboard" where
  "addNotification msg severity d = d\<lparr>notifications := notifications d @ [(msg, severity)]\<rparr>"

subsection \<open>The stop sequence, from one \<^verbatim>\<open>await\<close> to the next\<close>

text \<open>
  The \<^verbatim>\<open>finally\<close> of the save step resets the stopping flag; with it the handler returns.
\<close>

definition finish_stop :: "dashboard \<Rightarrow> dashboard" where
  "finish_stop d = d\<lparr>isStoppingRef := False, stop_task := None\<rparr>"

text \<open>
  The session object is assembled and \<^verbatim>\<open>saveMeetingSession\<close> is called; the handler then
  awaits the returned promise.
\<close>

definition issue_save :: "dashboard \<Rightarrow> dashboard" where
  "issue_save d =
     (let sessionData =
            \<lparr> session_created = clock d,
              session_duration = stop_duration d,
              transcript = getAllSegments (transcriptionRef d),
              session_summary = summaryRef d,
              platform = ''unknown'',
              audioQuality = 1,
              metadata_processingTime =
                (case summaryRef d of None \<Rightarrow> 0 | Some s \<Rightarrow> processingTime s) \<rparr>
      in d\<lparr>saveMeetingSession_calls := saveMeetingSession_calls d @ [sessionData],
            stop_task := Some AwaitSave\<rparr>)"

text \<open>The save step begins: the storage service is initialised first when it is not yet.\<close>

definition begin_save :: "dashboard \<Rightarrow> dashboard" where
  "begin_save d =
     (if \<not> storage_isInitialized d
      then d\<lparr>storage_initialize_calls := storage_initialize_calls d + 1,
              stop_task := Some AwaitStorageInit\<rparr>
      else issue_save d)"

text \<open>
  The final summary: \<^verbatim>\<open>generateSummary\<close> is called with \<^verbatim>\<open>transcriptSegments\<close> when that
  array is not empty.
\<close>

definition begin_summary :: "dashboard \<Rightarrow> dashboard" where
  "begin_summary d =
     (if length (transcriptSegments (transcriptionRef d)) > 0
      then d\<lparr>generateSummary_calls :=
                generateSummary_calls d @ [transcriptSegments (transcriptionRef d)],
              stop_task := Some AwaitSummary\<rparr>
      else begin_save d)"

text \<open>
  The race of \<^verbatim>\<open>forceStop()\<close> against the stop timer has settled. A rejection is caught
  and reported as a warning; either way the handler goes on to the final summary.
\<close>

definition after_stop_race :: "bool settled \<Rightarrow> dashboard \<Rightarrow> dashboard" where
  "after_stop_race result d =
     begin_summary
       (case result of
          Resolved _ \<Rightarrow> d
        | Rejected err \<Rightarrow>
            addNotification ''Warning: Transcription may not have stopped cleanly'' ''warning'' d)"

text \<open>
  \<^verbatim>\<open>generateSummary\<close> has settled. The call is not inside a \<^verbatim>\<open>try\<close>: a rejection leaves the
  handler, and the stopping flag stays set.
\<close>

definition after_summary :: "unit settled \<Rightarrow> dashboard \<Rightarrow> dashboard" where
  "after_summary result d =
     (case result of
        Resolved _ \<Rightarrow> begin_save d
      | Rejected err \<Rightarrow> d\<lparr>stop_task := None\<rparr>)"

definition save_failed :: "string \<Rightarrow> dashboard \<Rightarrow> dashboard" where
  "save_failed err d =
     finish_stop
       (addNotification
          (''Failed to save session: '' @ (if err = [] then ''Unknown error'' else err))
          ''error'' d)"

definition after_storage_init :: "unit settled \<Rightarrow> dashboard \<Rightarrow> dashboard" where
  "after_storage_init result d =
     (case result of
        Resolved _ \<Rightarrow> issue_save (d\<lparr>storage_isInitialized := True\<rparr>)
      | Rejected err \<Rightarrow> save_failed err d)"

definition after_save :: "unit settled \<Rightarrow> dashboard \<Rightarrow> dashboard" where
  "after_save result d =
     (case result of
        Resolved _ \<Rightarrow> finish_stop (addNotification ''Session saved successfully'' ''success'' d)
      | Rejected err \<Rightarrow> save_failed err d)"

subsection \<open>\<^verbatim>\<open>handleRecordingStateChange\<close>, up to its first \<^verbatim>\<open>await\<close>\<close>

text \<open>
  The start branch begins a session and calls \<^verbatim>\<open>startListening()\<close>. The stop branch is
  taken only when no stop is under way; it sets the stopping flag, ends the session and
  calls \<^verbatim>\<open>forceStop()\<close>, which the hook always provides (so the fallback to
  \<^verbatim>\<open>stopListening()\<close> is never taken), then awaits the race against the stop timer.
\<close>

definition handleRecordingStateChange :: "bool \<Rightarrow> dashboard \<Rightarrow> dashboard" where
  "handleRecordingStateChange isRecording d =
     (if isRecording \<and> \<not> rendered_isRecordingSession d then
        let d1 = d\<lparr>isRecordingSession := True,
                   dash_sessionStartTimeRef := Some (clock d),
                   sessionStats := \<lparr>stat_duration = 0, transcriptWords = 0,
                                    summaryGenerated = False\<rparr>\<rparr>;
            (called, h) = startListening_begin (isListening (transcriptionRef d1)) (hook d1)
        in if called
           then d1\<lparr>hook := h, starts_awaiting_service := starts_awaiting_service d1 + 1\<rparr>
           else d1\<lparr>hook := h, starts_returned := starts_returned d1 + 1\<rparr>
      else if \<not> isRecording \<and> rendered_isRecordingSession d \<and> \<not> isStoppingRef d then
        let d1 = d\<lparr>isStoppingRef := True, isRecordingSession := False,
                   dash_sessionStartTimeRef := None, stop_duration := rendered_duration d\<rparr>;
            (awaiting, h) = forceStop_begin (hook d1)
        in d1\<lparr>hook := h,
              forceStops_pending := forceStops_pending d1 + (if awaiting then 1 else 0),
              stop_task := Some AwaitStopRace\<rparr>
      else d)"

text \<open>The rest of the start branch, once \<^verbatim>\<open>startListening()\<close> has returned.\<close>

definition after_start :: "dashboard \<Rightarrow> dashboard" where
  "after_start d = (addNotification ''Recording session started'' ''success'' d)\<lparr>activeTab := 0\<rparr>"

subsection \<open>The auto-summary effect\<close>

text \<open>
  \<^verbatim>\<open>checkForSummaryGeneration\<close>, run by the interval: with segments present, the pending
  timer is replaced by a new one.
\<close>

definition checkForSummaryGeneration :: "dashboard \<Rightarrow> dashboard" where
  "checkForSummaryGeneration d =
     (if length (transcriptSegments (transcriptionRef d)) > 0
      then d\<lparr>timeout_armed := True\<rparr>
      else d)"

text \<open>
  The timer's callback: \<^verbatim>\<open>autoGenerateSummary\<close> is called with \<^verbatim>\<open>transcriptSegments\<close> when
  that array is not empty (the thresholds are constants of the call and are left out).
\<close>

definition autoSummaryTimeout :: "dashboard \<Rightarrow> dashboard" where
  "autoSummaryTimeout d =
     (let d1 = d\<lparr>timeout_armed := False\<rparr>
      in if length (transcriptSegments (transcriptionRef d1)) > 0
         then d1\<lparr>autoGenerateSummary_calls :=
                    autoGenerateSummary_calls d1 @ [transcriptSegments (transcriptionRef d1)]\<rparr>
         else d1)"

subsection \<open>Events\<close>

text \<open>
  What can happen to the component: the recording control calls the handler of the last
  render; React renders; the speech service fires a callback; an awaited promise settles;
  a timer fires; the summary hook or the stats change; time passes.
\<close>

datatype event =
    RecordingStateChange bool
  | Render
  | Service service_event
  | StartSettled "bool settled"
  | StartReturned
  | ForceStopSettled "unit settled"
  | StopRaceSettled "bool settled"
  | SummarySettled "unit settled"
  | StorageInitSettled "unit settled"
  | SaveSettled "unit settled"
  | IntervalTick
  | AutoSummaryTimeout
  | SummaryChanged "summary_info option"
  | StatsChanged session_stats
  | Tick nat

text \<open>
  A render hands the current state to the callbacks, to \<^verbatim>\<open>transcriptionRef\<close> and to
  \<^verbatim>\<open>summaryRef\<close>; when
  \<^verbatim>\<open>isRecordingSession\<close> has changed, the auto-summary effect is cleaned up (interval and
  timer cleared) and set up again if a session is recording.
\<close>

definition render :: "dashboard \<Rightarrow> dashboard" where
  "render d =
     (let d1 = d\<lparr>rendered_isRecordingSession := isRecordingSession d,
                 rendered_duration := stat_duration (sessionStats d),
                 transcriptionRef := hook d,
                 summaryRef := currentSummary d\<rparr>
      in if isRecordingSession d \<noteq> rendered_isRecordingSession d
         then d1\<lparr>interval_active := isRecordingSession d, timeout_armed := False\<rparr>
         else d1)"

text \<open>
  One event. A settlement acts only when the matching \<^verbatim>\<open>await\<close> is pending, and a timer
  only when it is set.
\<close>

fun step :: "dashboard \<Rightarrow> event \<Rightarrow> dashboard" where
  "step d (RecordingStateChange isRecording) = handleRecordingStateChange isRecording d"
| "step d Render = render d"
| "step d (Service ev) = d\<lparr>hook := service_step (hook d) ev\<rparr>"
| "step d (StartSettled result) =
     (if starts_awaiting_service d > 0
      then after_start
             (d\<lparr>hook := snd (startListening_settle (clock d) result (hook d)),
                starts_awaiting_service := starts_awaiting_service d - 1\<rparr>)
      else d)"
| "step d StartReturned =
     (if starts_returned d > 0
      then after_start (d\<lparr>starts_returned := starts_returned d - 1\<rparr>)
      else d)"
| "step d (ForceStopSettled result) =
     (if forceStops_pending d > 0
      then d\<lparr>hook := snd (forceStop_settle (clock d) result (hook d)),
              forceStops_pending := forceStops_pending d - 1\<rparr>
      else d)"
| "step d (StopRaceSettled result) =
     (if stop_task d = Some AwaitStopRace then after_stop_race result d else d)"
| "step d (SummarySettled result) =
     (if stop_task d = Some AwaitSummary then after_summary result d else d)"
| "step d (StorageInitSettled result) =
     (if stop_task d = Some AwaitStorageInit then after_storage_init result d else d)"
| "step d (SaveSettled result) =
     (if stop_task d = Some AwaitSave then after_save result d else d)"
| "step d IntervalTick = (if interval_active d then checkForSummaryGeneration d else d)"
| "step d AutoSummaryTimeout = (if timeout_armed d then autoSummaryTimeout d else d)"
| "step d (SummaryChanged s) = d\<lparr>currentSummary := s\<rparr>"
| "step d (StatsChanged stats) = d\<lparr>sessionStats := stats\<rparr>"
| "step d (Tick n) = d\<lparr>clock := clock d + n\<rparr>"

definition run :: "event list \<Rightarrow> dashboard \<Rightarrow> dashboard" where
  "run evs d = foldl step d evs"



text \<open>A dashboard right after mount, with the transcription hook in the state \<open>h\<close>.\<close>

definition initial_dashboard :: "transcription \<Rightarrow> dashboard" where
  "initial_dashboard h =
     \<lparr> clock = 0, isRecordingSession = False, rendered_isRecordingSession = False,
       sessionStats = \<lparr>stat_duration = 0, transcriptWords = 0, summaryGenerated = False\<rparr>,
       rendered_duration = 0, stop_duration = 0, isStoppingRef = False,
       dash_sessionStartTimeRef = None,
       activeTab = 0, notifications = [], hook = h, transcriptionRef = h,
       currentSummary = None, summaryRef = None, generateSummary_calls = [],
       autoGenerateSummary_calls = [],
       storage_isInitialized = True, storage_initialize_calls = 0,
       saveMeetingSession_calls = [], starts_awaiting_service = 0, starts_returned = 0,
       forceStops_pending = 0, stop_task = None, interval_active = False,
       timeout_armed = False \<rparr>"

subsection \<open>Vocabulary for statements about runs\<close>

text \<open>The segments handed to \<^verbatim>\<open>onSegmentComplete\<close> in a run, in order of arrival.\<close>

fun committed :: "segment_event list \<Rightarrow> segment list" where
  "committed [] = []"
| "committed (SegmentComplete seg # evs) = seg # committed evs"
| "committed (TranscriptUpdate seg # evs) = committed evs"

text \<open>The segments handed to either callback in a run, in order of arrival.\<close>

fun upserted :: "segment_event list \<Rightarrow> segment list" where
  "upserted [] = []"
| "upserted (SegmentComplete seg # evs) = seg # upserted evs"
| "upserted (TranscriptUpdate seg # evs) = seg # upserted evs"

text \<open>The last segment of a sequence that carries the id \<open>x\<close>.\<close>

definition latest :: "segment list \<Rightarrow> string \<Rightarrow> segment option" where
  "latest segs x = find (\<lambda>s. seg_id s = x) (rev segs)"

text \<open>
  The commits that no later commit with the same id replaces, in their order of arrival.
\<close>

fun latest_commits :: "segment list \<Rightarrow> segment list" where
  "latest_commits [] = []"
| "latest_commits (c # cs) =
     (if list_ex (\<lambda>s. seg_id s = seg_id c) cs then latest_commits cs
      else c # latest_commits cs)"

text \<open>
  The transcript text in the words of the specification: the texts of the final segments in
  order, each one after the first preceded by a single space.
\<close>

definition fullText_spec :: "segment list \<Rightarrow> string" where
  "fullText_spec finals =
     (case finals of [] \<Rightarrow> []
      | s # rest \<Rightarrow> seg_text s @ concat (map (\<lambda>t. CHR '' '' # seg_text t) rest))"

text \<open>Sample segments for the concrete runs below.\<close>

definition seg_hello :: segment where
  "seg_hello = \<lparr> seg_id = ''A'', seg_text = ''hello'', timestamp = 0, confidence = 1,
                  isFinal = True, duration = 900 \<rparr>"

definition seg_world :: segment where
  "seg_world = \<lparr> seg_id = ''B'', seg_text = ''world'', timestamp = 1000, confidence = 1,
                  isFinal = True, duration = 900 \<rparr>"

definition seg_hullo :: segment where
  "seg_hullo = \<lparr> seg_id = ''A'', seg_text = ''hullo'', timestamp = 0, confidence = 0,
                  isFinal = False, duration = 0 \<rparr>"

definition seg_wor :: segment where
  "seg_wor = \<lparr> seg_id = ''B'', seg_text = ''wor'', timestamp = 1000, confidence = 0,
                isFinal = False, duration = 0 \<rparr>"

text \<open>
  Two runs over the sample segments: one whose commits arrive against the order of their
  timestamps and which ends with an interim update for a committed id, and one whose commits
  arrive in the order of their timestamps.
\<close>

definition unsorted_run :: "segment_event list" where
  "unsorted_run =
     [SegmentComplete seg_world, SegmentComplete seg_hello, TranscriptUpdate seg_hullo]"

definition sorted_run :: "segment_event list" where
  "sorted_run =
     [TranscriptUpdate seg_hullo, SegmentComplete seg_hello, SegmentComplete seg_world]"

text \<open>A run that commits \<open>A\<close>, then \<open>B\<close>, then \<open>A\<close> again.\<close>

definition replay_run :: "segment_event list" where
  "replay_run =
     [SegmentComplete seg_hello, SegmentComplete seg_world, SegmentComplete seg_hello]"

text \<open>A run in which \<^verbatim>\<open>onSegmentComplete\<close> is handed a segment that is not final.\<close>

definition interim_commit_run :: "segment_event list" where
  "interim_commit_run = [TranscriptUpdate seg_hullo, SegmentComplete seg_wor]"

subsection \<open>Vocabulary for statements about the stop sequence\<close>





text \<open>The events at which the race of the stop settles.\<close>

fun is_stop_race_settled :: "event \<Rightarrow> bool" where
  "is_stop_race_settled (StopRaceSettled result) = True"
| "is_stop_race_settled ev = False"

text \<open>Sample hook states, dashboards and runs for the concrete cases below.\<close>

definition ready_hook :: transcription where
  "ready_hook = initial_transcription\<lparr>speechServiceRef := Some 0, isInitialized := True\<rparr>"

definition listening_hook :: transcription where
  "listening_hook = initial_transcription\<lparr>speechServiceRef := Some 0, isInitialized := True,
      isListening := True, currentTranscript := ''hullo'', transcriptSegments := [seg_hullo]\<rparr>"

definition paused_hook :: transcription where
  "paused_hook = listening_hook\<lparr>isPaused := True\<rparr>"

definition recording_hook :: transcription where
  "recording_hook =
     initial_transcription\<lparr>speechServiceRef := Some 0, isInitialized := True, isListening := True,
        transcriptSegments := [seg_hello, seg_world]\<rparr>"

definition recording_dashboard :: dashboard where
  "recording_dashboard =
     (initial_dashboard recording_hook)\<lparr>isRecordingSession := True,
        rendered_isRecordingSession := True, interval_active := True\<rparr>"





text \<open>
  A hook whose service has been dropped by a failed \<^verbatim>\<open>forceStop()\<close> and has then reported
  that it is listening.
\<close>

definition detached_listening_hook :: transcription where
  "detached_listening_hook =
     hook (run [RecordingStateChange False, ForceStopSettled (Rejected ''Force stop timeout''),
                Service (StatusChange ''listening'')] recording_dashboard)"

definition stopping_dashboard :: dashboard where
  "stopping_dashboard = step recording_dashboard (RecordingStateChange False)"

definition interim_only_session :: "event list" where
  "interim_only_session =
     [RecordingStateChange True, StartSettled (Resolved True),
      Service (StatusChange ''listening''), Render,
      Service (SegmentEvent (TranscriptUpdate seg_hullo)), Render,
      RecordingStateChange False]"

definition interim_tail_session :: "event list" where
  "interim_tail_session =
     [RecordingStateChange True, StartSettled (Resolved True),
      Service (StatusChange ''listening''), Render,
      Service (SegmentEvent (TranscriptUpdate seg_hullo)),
      Service (SegmentEvent (SegmentComplete seg_hello)),
      Service (SegmentEvent (TranscriptUpdate seg_wor)), Render,
      IntervalTick, AutoSummaryTimeout,
      RecordingStateChange False, StopRaceSettled (Resolved True)]"

text \<open>
  An ordinary session: two final segments \<open>hello\<close> and \<open>world\<close> are committed, the session
  is stopped, the summary and the save succeed.
\<close>

definition ordinary_session :: "event list" where
  "ordinary_session =
     [RecordingStateChange True, StartSettled (Resolved True),
      Service (StatusChange ''listening''), Render,
      Service (SegmentEvent (TranscriptUpdate seg_hullo)),
      Service (SegmentEvent (SegmentComplete seg_hello)),
      Service (SegmentEvent (SegmentComplete seg_world)), Render,
      RecordingStateChange False, ForceStopSettled (Resolved ()),
      StopRaceSettled (Resolved True), SummarySettled (Resolved ()), SaveSettled (Resolved ())]"

section \<open>The stop sequence in time\<close>

text \<open>
  How long the promises that a stop awaits take to settle, in milliseconds from the call
  that returned them: \<^verbatim>\<open>cleanup()\<close> of the speech service, \<^verbatim>\<open>generateSummary\<close>,
  \<^verbatim>\<open>storageService.initialize()\<close> and \<^verbatim>\<open>saveMeetingSession\<close>. \<open>Never\<close> is a promise that
  does not settle.
\<close>

record stop_env =
  cleanup_settles :: "unit promise"
  summary_settles :: "unit promise"
  storageInit_settles :: "unit promise"
  save_settles :: "unit promise"

text \<open>
  Times below are milliseconds after the recording control reported that recording has
  stopped. Inside \<^verbatim>\<open>forceStop()\<close> the hook awaits \<^verbatim>\<open>cleanup()\<close> raced against its own timer;
  with no service \<^verbatim>\<open>forceStop()\<close> returns at once and awaits nothing.
\<close>

definition hook_events :: "stop_env \<Rightarrow> dashboard \<Rightarrow> (nat \<times> event) list" where
  "hook_events env d =
     (if speechServiceRef (hook d) = None then []
      else case race (cleanup_settles env)
                  (timeoutPromise forceStopTimeoutMs ''Force stop timeout'') of
             Never \<Rightarrow> []
           | Settles t r \<Rightarrow> [(t, ForceStopSettled r)])"

text \<open>
  The handler awaits \<^verbatim>\<open>forceStop()\<close> raced against the stop timer, then
  \<^verbatim>\<open>generateSummary\<close>, \<^verbatim>\<open>storageService.initialize()\<close> and \<^verbatim>\<open>saveMeetingSession\<close>, each where
  the stop sequence calls it and each only once the one before has settled. None of the
  three later promises is raced against a timer: one that does not settle leaves the handler
  suspended at it. The handler has set state before its first \<^verbatim>\<open>await\<close>, so React has
  rendered by the time the race settles.
\<close>

definition save_events :: "stop_env \<Rightarrow> nat \<Rightarrow> dashboard \<Rightarrow> (nat \<times> event) list" where
  "save_events env t d =
     (if stop_task d = Some AwaitSave
      then case save_settles env of
             Never \<Rightarrow> []
           | Settles u r \<Rightarrow> [(t + u, SaveSettled r)]
      else [])"

definition storage_events :: "stop_env \<Rightarrow> nat \<Rightarrow> dashboard \<Rightarrow> (nat \<times> event) list" where
  "storage_events env t d =
     (if stop_task d = Some AwaitStorageInit
      then case storageInit_settles env of
             Never \<Rightarrow> []
           | Settles u r \<Rightarrow>
               (t + u, StorageInitSettled r)
                 # save_events env (t + u) (step d (StorageInitSettled r))
      else save_events env t d)"

definition summary_events :: "stop_env \<Rightarrow> nat \<Rightarrow> dashboard \<Rightarrow> (nat \<times> event) list" where
  "summary_events env t d =
     (if stop_task d = Some AwaitSummary
      then case summary_settles env of
             Never \<Rightarrow> []
           | Settles u r \<Rightarrow>
               (t + u, SummarySettled r)
                 # storage_events env (t + u) (step d (SummarySettled r))
      else storage_events env t d)"

definition dashboard_events :: "stop_env \<Rightarrow> dashboard \<Rightarrow> (nat \<times> event) list" where
  "dashboard_events env d =
     (case stop_wait (speechServiceRef (hook d) \<noteq> None) (cleanup_settles env) of
        Never \<Rightarrow> []
      | Settles t r \<Rightarrow>
          (t, StopRaceSettled r)
            # summary_events env t
                (step (step (step d (RecordingStateChange False)) Render)
                   (StopRaceSettled r)))"

text \<open>
  All settlements of one stop in the order of their times; of two that fall on the same
  millisecond the hook's comes first, its timer having been set first.
\<close>

definition stop_timeline :: "stop_env \<Rightarrow> dashboard \<Rightarrow> (nat \<times> event) list" where
  "stop_timeline env d = sort_key fst (hook_events env d @ dashboard_events env d)"

text \<open>
  The events of a timeline with the clock advanced in between, up to \<open>limit\<close>, and with the
  render that follows each of them.
\<close>

fun with_ticks :: "nat \<Rightarrow> nat \<Rightarrow> (nat \<times> event) list \<Rightarrow> event list" where
  "with_ticks limit elapsed [] = [Tick (limit - elapsed)]"
| "with_ticks limit elapsed ((due, ev) # later) =
     Tick (due - elapsed) # ev # Render # with_ticks limit due later"

definition timeline_until :: "stop_env \<Rightarrow> dashboard \<Rightarrow> nat \<Rightarrow> event list" where
  "timeline_until env d t = with_ticks t 0 (filter (\<lambda>p. fst p \<le> t) (stop_timeline env d))"

text \<open>
  The component \<open>t\<close> milliseconds after the recording control reported that recording has
  stopped, when nothing happens in between but the settlements of the stop and the renders
  that follow the handler's first part and each settlement.
\<close>

definition state_at :: "stop_env \<Rightarrow> dashboard \<Rightarrow> nat \<Rightarrow> dashboard" where
  "state_at env d t =
     run (timeline_until env d t) (step (step d (RecordingStateChange False)) Render)"

definition warnings :: "dashboard \<Rightarrow> (string \<times> string) list" where
  "warnings d = filter (\<lambda>n. snd n = ''warning'') (notifications d)"

fun is_forceStop_settled :: "event \<Rightarrow> bool" where
  "is_forceStop_settled (ForceStopSettled result) = True"
| "is_forceStop_settled ev = False"

fun is_summary_settled :: "event \<Rightarrow> bool" where
  "is_summary_settled (SummarySettled result) = True"
| "is_summary_settled ev = False"

text \<open>The events of which the timeline of a stop is made.\<close>

fun timeline_event :: "event \<Rightarrow> bool" where
  "timeline_event (Tick n) = True"
| "timeline_event Render = True"
| "timeline_event (ForceStopSettled result) = True"
| "timeline_event (StopRaceSettled result) = True"
| "timeline_event (SummarySettled result) = True"
| "timeline_event (StorageInitSettled result) = True"
| "timeline_event (SaveSettled result) = True"
| "timeline_event ev = False"

text \<open>
  The settlements that the handler itself awaits, and what of the component decides how the
  handler goes on from one of them.
\<close>

fun is_handler_settlement :: "event \<Rightarrow> bool" where
  "is_handler_settlement (StopRaceSettled result) = True"
| "is_handler_settlement (SummarySettled result) = True"
| "is_handler_settlement (StorageInitSettled result) = True"
| "is_handler_settlement (SaveSettled result) = True"
| "is_handler_settlement ev = False"

definition stop_view :: "dashboard \<Rightarrow> stop_phase option \<times> bool \<times> bool \<times> bool" where
  "stop_view d =
     (stop_task d, isStoppingRef d, storage_isInitialized d,
      transcriptSegments (transcriptionRef d) = [])"

text \<open>
  Two services with a speech service whose \<^verbatim>\<open>cleanup()\<close> hangs: in the first nothing else
  answers either; in the second the summary takes two and a half seconds and the save half a
  second.
\<close>

definition hung_env :: stop_env where
  "hung_env =
     \<lparr> cleanup_settles = Never, summary_settles = Never,
       storageInit_settles = Never, save_settles = Never \<rparr>"

definition slow_summary_env :: stop_env where
  "slow_summary_env =
     \<lparr> cleanup_settles = Never, summary_settles = Settles 2500 (Resolved ()),
       storageInit_settles = Settles 0 (Resolved ()), save_settles = Settles 500 (Resolved ()) \<rparr>"


section \<open>Properties of the transcript buffer\<close>

subsection \<open>Runs and single callbacks\<close>

lemma run_segments_Nil: "run_segments [] st = st"
  by (simp add: run_segments_def)

lemma run_segments_Cons: "run_segments (ev # evs) st = run_segments evs (segment_step st ev)"
  by (simp add: run_segments_def)

lemma run_segments_snoc: "run_segments (evs @ [ev]) st = segment_step (run_segments evs st) ev"
  by (simp add: run_segments_def)

lemma run_segments_append:
  "run_segments (evs @ evs') st = run_segments evs' (run_segments evs st)"
  by (simp add: run_segments_def)

lemma committed_snoc:
  "committed (evs @ [ev]) =
     (case ev of SegmentComplete seg \<Rightarrow> committed evs @ [seg]
      | TranscriptUpdate seg \<Rightarrow> committed evs)"
  by (induction evs rule: committed.induct) (auto split: segment_event.splits)

lemma segments_onTranscriptUpdate:
  "transcriptSegments (onTranscriptUpdate seg st) =
     (if isFinal seg then transcriptSegments st
      else filter isFinal (transcriptSegments st) @ [seg])"
  by (simp add: onTranscriptUpdate_def Let_def)

lemma segments_onSegmentComplete:
  "transcriptSegments (onSegmentComplete seg st) =
     filter (\<lambda>s. seg_id s \<noteq> seg_id seg) (transcriptSegments st) @ [seg]"
  by (simp add: onSegmentComplete_def)

lemma finals_onTranscriptUpdate:
  "getAllSegments (onTranscriptUpdate seg st) = getAllSegments st"
  by (simp add: getAllSegments_def segments_onTranscriptUpdate)

lemma finals_onSegmentComplete:
  "getAllSegments (onSegmentComplete seg st) =
     filter (\<lambda>s. seg_id s \<noteq> seg_id seg) (getAllSegments st)
       @ (if isFinal seg then [seg] else [])"
  by (auto simp: getAllSegments_def segments_onSegmentComplete conj_commute)

lemma latest_snoc:
  "latest (segs @ [seg]) x = (if seg_id seg = x then Some seg else latest segs x)"
  by (simp add: latest_def)

lemma latest_Some_id: "latest segs x = Some s \<Longrightarrow> seg_id s = x"
  by (auto simp: latest_def find_Some_iff)

subsection \<open>The final view has one entry per id\<close>

lemma distinct_finals_step:
  assumes "distinct (map seg_id (getAllSegments st))"
  shows "distinct (map seg_id (getAllSegments (segment_step st ev)))"
  using assms
  by (cases ev) (auto simp: finals_onTranscriptUpdate finals_onSegmentComplete distinct_map_filter)

lemma distinct_finals_run:
  "distinct (map seg_id (getAllSegments st)) \<Longrightarrow>
   distinct (map seg_id (getAllSegments (run_segments evs st)))"
  by (induction evs arbitrary: st)
     (simp_all add: run_segments_Nil run_segments_Cons distinct_finals_step)

subsection \<open>The final view holds the latest commits\<close>

lemma finals_latest_run:
  assumes "transcriptSegments st = []"
  shows "\<forall>s \<in> set (getAllSegments (run_segments evs st)).
           latest (committed evs) (seg_id s) = Some s"
proof (induction evs rule: rev_induct)
  case Nil
  show ?case using assms by (simp add: run_segments_Nil getAllSegments_def)
next
  case (snoc ev evs)
  then show ?case
    by (cases ev)
       (auto simp: run_segments_snoc committed_snoc finals_onTranscriptUpdate
          finals_onSegmentComplete latest_snoc)
qed

lemma latest_finals_run:
  "latest (committed evs) x = Some s \<Longrightarrow> isFinal s \<Longrightarrow>
   s \<in> set (getAllSegments (run_segments evs st))"
proof (induction evs arbitrary: x s rule: rev_induct)
  case Nil
  then show ?case by (simp add: latest_def)
next
  case (snoc ev evs)
  show ?case
  proof (cases ev)
    case (TranscriptUpdate seg)
    with snoc show ?thesis
      by (simp add: run_segments_snoc committed_snoc finals_onTranscriptUpdate)
  next
    case (SegmentComplete seg)
    show ?thesis
    proof (cases "seg_id seg = x")
      case True
      with snoc.prems SegmentComplete show ?thesis
        by (simp add: run_segments_snoc committed_snoc finals_onSegmentComplete latest_snoc)
    next
      case False
      with snoc.prems SegmentComplete have l: "latest (committed evs) x = Some s"
        by (simp add: committed_snoc latest_snoc)
      then have "seg_id s = x" by (rule latest_Some_id)
      with False snoc.IH [OF l snoc.prems(2)] SegmentComplete show ?thesis
        by (auto simp: run_segments_snoc finals_onSegmentComplete)
    qed
  qed
qed

subsection \<open>The final view keeps the order of arrival\<close>

lemma subseq_finals_run:
  assumes "transcriptSegments st = []"
  shows "subseq (getAllSegments (run_segments evs st)) (filter isFinal (committed evs))"
proof (induction evs rule: rev_induct)
  case Nil
  show ?case using assms by (simp add: run_segments_Nil getAllSegments_def)
next
  case (snoc ev evs)
  show ?case
  proof (cases ev)
    case (TranscriptUpdate seg)
    with snoc show ?thesis
      by (simp add: run_segments_snoc committed_snoc finals_onTranscriptUpdate)
  next
    case (SegmentComplete seg)
    have "subseq (filter (\<lambda>s. seg_id s \<noteq> seg_id seg) (getAllSegments (run_segments evs st)))
            (getAllSegments (run_segments evs st))"
      by simp
    then have "subseq (filter (\<lambda>s. seg_id s \<noteq> seg_id seg) (getAllSegments (run_segments evs st)))
            (filter isFinal (committed evs))"
      using snoc by (rule subseq_order.order_trans)
    with SegmentComplete show ?thesis
      by (simp add: run_segments_snoc committed_snoc finals_onSegmentComplete)
  qed
qed

lemma sorted_subseq:
  fixes ys :: "int list"
  shows "subseq xs ys \<Longrightarrow> sorted ys \<Longrightarrow> sorted xs"
proof (induction rule: list_emb.induct)
  case (list_emb_Nil ys)
  show ?case by simp
next
  case (list_emb_Cons xs ys y)
  then show ?case by simp
next
  case (list_emb_Cons2 x y xs ys)
  have "\<forall>z \<in> set xs. z \<in> set ys"
    using list_emb_Cons2(2) by (auto elim: list_emb_set)
  with list_emb_Cons2 show ?case by auto
qed

lemma sorted_finals_run:
  assumes "transcriptSegments st = []"
      and "sorted (map timestamp (filter isFinal (committed evs)))"
  shows "sorted (map timestamp (getAllSegments (run_segments evs st)))"
proof -
  have "subseq (map timestamp (getAllSegments (run_segments evs st)))
          (map timestamp (filter isFinal (committed evs)))"
    using subseq_finals_run [OF assms(1)] by (rule subseq_map)
  then show ?thesis using assms(2) by (rule sorted_subseq)
qed

subsection \<open>The final view is the list of latest commits\<close>

lemma latest_commits_snoc:
  "latest_commits (cs @ [c]) = filter (\<lambda>s. seg_id s \<noteq> seg_id c) (latest_commits cs) @ [c]"
  by (induction cs) auto

lemma finals_are_latest_commits:
  assumes "transcriptSegments st = []"
  shows "getAllSegments (run_segments evs st) = filter isFinal (latest_commits (committed evs))"
proof (induction evs rule: rev_induct)
  case Nil
  show ?case using assms by (simp add: run_segments_Nil getAllSegments_def)
next
  case (snoc ev evs)
  show ?case
  proof (cases ev)
    case (TranscriptUpdate seg)
    with snoc show ?thesis
      by (simp add: run_segments_snoc committed_snoc finals_onTranscriptUpdate)
  next
    case (SegmentComplete seg)
    have "filter isFinal (filter (\<lambda>s. seg_id s \<noteq> seg_id seg) (latest_commits (committed evs))) =
          filter (\<lambda>s. seg_id s \<noteq> seg_id seg) (filter isFinal (latest_commits (committed evs)))"
      by (simp add: conj_commute)
    with snoc SegmentComplete show ?thesis
      by (simp add: run_segments_snoc committed_snoc finals_onSegmentComplete
            latest_commits_snoc del: filter_filter)
  qed
qed

subsection \<open>At most one interim segment\<close>

lemma interim_onTranscriptUpdate:
  "\<not> isFinal seg \<Longrightarrow>
   filter (\<lambda>s. \<not> isFinal s) (transcriptSegments (onTranscriptUpdate seg st)) = [seg]"
  by (simp add: segments_onTranscriptUpdate filter_empty_conv)

lemma interim_onSegmentComplete:
  assumes "length (filter (\<lambda>s. \<not> isFinal s) (transcriptSegments st)) \<le> 1"
      and "isFinal seg"
  shows "length (filter (\<lambda>s. \<not> isFinal s) (transcriptSegments (onSegmentComplete seg st))) \<le> 1"
proof -
  have "filter (\<lambda>s. \<not> isFinal s) (filter (\<lambda>s. seg_id s \<noteq> seg_id seg) (transcriptSegments st)) =
        filter (\<lambda>s. seg_id s \<noteq> seg_id seg) (filter (\<lambda>s. \<not> isFinal s) (transcriptSegments st))"
    by (simp add: conj_commute)
  then have "length (filter (\<lambda>s. \<not> isFinal s)
                (filter (\<lambda>s. seg_id s \<noteq> seg_id seg) (transcriptSegments st)))
        \<le> length (filter (\<lambda>s. \<not> isFinal s) (transcriptSegments st))"
    by (simp only: length_filter_le)
  with assms show ?thesis
    by (simp add: segments_onSegmentComplete)
qed

lemma interim_run:
  assumes "length (filter (\<lambda>s. \<not> isFinal s) (transcriptSegments st)) \<le> 1"
      and "list_all isFinal (committed evs)"
  shows "length (filter (\<lambda>s. \<not> isFinal s) (transcriptSegments (run_segments evs st))) \<le> 1"
  using assms
proof (induction evs arbitrary: st rule: committed.induct)
  case 1
  then show ?case by (simp add: run_segments_Nil)
next
  case (2 seg evs)
  from "2.prems" have f: "isFinal seg" and r: "list_all isFinal (committed evs)"
    by simp_all
  have "length (filter (\<lambda>s. \<not> isFinal s) (transcriptSegments (onSegmentComplete seg st))) \<le> 1"
    using "2.prems"(1) f by (rule interim_onSegmentComplete)
  then have "length (filter (\<lambda>s. \<not> isFinal s)
               (transcriptSegments (run_segments evs (onSegmentComplete seg st)))) \<le> 1"
    using r by (rule "2.IH")
  then show ?case by (simp add: run_segments_Cons)
next
  case (3 seg evs)
  from "3.prems" have r: "list_all isFinal (committed evs)"
    by simp
  have "length (filter (\<lambda>s. \<not> isFinal s) (transcriptSegments (onTranscriptUpdate seg st))) \<le> 1"
    using "3.prems"(1) by (simp add: segments_onTranscriptUpdate)
  then have "length (filter (\<lambda>s. \<not> isFinal s)
               (transcriptSegments (run_segments evs (onTranscriptUpdate seg st)))) \<le> 1"
    using r by (rule "3.IH")
  then show ?case by (simp add: run_segments_Cons)
qed

lemma interim_step_bound:
  "length (filter (\<lambda>s. \<not> isFinal s) (transcriptSegments (onSegmentComplete seg st)))
     \<le> length (filter (\<lambda>s. \<not> isFinal s) (transcriptSegments st))
         + length (filter (\<lambda>s. \<not> isFinal s) [seg])"
proof -
  have "filter (\<lambda>s. \<not> isFinal s) (filter (\<lambda>s. seg_id s \<noteq> seg_id seg) (transcriptSegments st)) =
        filter (\<lambda>s. seg_id s \<noteq> seg_id seg) (filter (\<lambda>s. \<not> isFinal s) (transcriptSegments st))"
    by (simp add: conj_commute)
  then have "length (filter (\<lambda>s. \<not> isFinal s)
                (filter (\<lambda>s. seg_id s \<noteq> seg_id seg) (transcriptSegments st)))
        \<le> length (filter (\<lambda>s. \<not> isFinal s) (transcriptSegments st))"
    by (simp only: length_filter_le)
  then show ?thesis
    by (simp add: segments_onSegmentComplete)
qed

lemma interim_run_bound:
  "length (filter (\<lambda>s. \<not> isFinal s) (transcriptSegments (run_segments evs st)))
     \<le> max 1 (length (filter (\<lambda>s. \<not> isFinal s) (transcriptSegments st)))
         + length (filter (\<lambda>s. \<not> isFinal s) (committed evs))"
proof (induction evs arbitrary: st rule: committed.induct)
  case 1
  show ?case by (simp add: run_segments_Nil)
next
  case (2 seg evs)
  have "length (filter (\<lambda>s. \<not> isFinal s)
          (transcriptSegments (run_segments evs (onSegmentComplete seg st))))
        \<le> max 1 (length (filter (\<lambda>s. \<not> isFinal s) (transcriptSegments (onSegmentComplete seg st))))
            + length (filter (\<lambda>s. \<not> isFinal s) (committed evs))"
    by (rule "2.IH")
  with interim_step_bound [of seg st] show ?case
    by (simp add: run_segments_Cons split: if_splits)
next
  case (3 seg evs)
  have "length (filter (\<lambda>s. \<not> isFinal s)
          (transcriptSegments (run_segments evs (onTranscriptUpdate seg st))))
        \<le> max 1 (length (filter (\<lambda>s. \<not> isFinal s) (transcriptSegments (onTranscriptUpdate seg st))))
            + length (filter (\<lambda>s. \<not> isFinal s) (committed evs))"
    by (rule "3.IH")
  moreover have "length (filter (\<lambda>s. \<not> isFinal s) (transcriptSegments (onTranscriptUpdate seg st)))
        \<le> max 1 (length (filter (\<lambda>s. \<not> isFinal s) (transcriptSegments st)))"
    by (simp add: segments_onTranscriptUpdate)
  ultimately show ?case
    by (simp add: run_segments_Cons)
qed

subsection \<open>The entries of one id\<close>

lemma entries_onSegmentComplete:
  assumes "isFinal seg"
  shows "filter (\<lambda>s. seg_id s = seg_id seg) (getAllSegments (onSegmentComplete seg st)) = [seg]"
proof -
  have "filter (\<lambda>s. seg_id s = seg_id seg)
          (filter (\<lambda>s. seg_id s \<noteq> seg_id seg) (getAllSegments st)) = []"
    by (simp add: filter_empty_conv)
  with assms show ?thesis
    by (simp add: finals_onSegmentComplete del: filter_filter)
qed

lemma entries_onSegmentComplete_other:
  assumes "seg_id seg \<noteq> x"
  shows "filter (\<lambda>s. seg_id s = x) (getAllSegments (onSegmentComplete seg st)) =
         filter (\<lambda>s. seg_id s = x) (getAllSegments st)"
proof -
  have "filter (\<lambda>s. seg_id s = x) (filter (\<lambda>s. seg_id s \<noteq> seg_id seg) (getAllSegments st)) =
        filter (\<lambda>s. seg_id s = x) (getAllSegments st)"
    unfolding filter_filter using assms by (intro filter_cong) auto
  with assms show ?thesis
    by (simp add: finals_onSegmentComplete del: filter_filter)
qed

lemma entries_run_other:
  assumes "list_all (\<lambda>s. seg_id s \<noteq> x) (committed evs)"
  shows "filter (\<lambda>s. seg_id s = x) (getAllSegments (run_segments evs st)) =
         filter (\<lambda>s. seg_id s = x) (getAllSegments st)"
  using assms
proof (induction evs arbitrary: st rule: committed.induct)
  case 1
  show ?case by (simp add: run_segments_Nil)
next
  case (2 seg evs)
  then show ?case
    by (simp add: run_segments_Cons entries_onSegmentComplete_other)
next
  case (3 seg evs)
  then show ?case
    by (simp add: run_segments_Cons finals_onTranscriptUpdate)
qed

lemma join_Cons: "join sep (x # xs) = x @ concat (map (\<lambda>t. sep @ t) xs)"
  by (induction xs arbitrary: x) auto

section \<open>Claims about the transcript buffer\<close>

text \<open>
  Claim C1, as the code has it. From an empty segment collection and for every sequence of
  \<^verbatim>\<open>onTranscriptUpdate\<close> and \<^verbatim>\<open>onSegmentComplete\<close> calls, \<^verbatim>\<open>getAllSegments()\<close> is exactly
  the list of the commits that no later commit with the same id has replaced, in the order
  in which they arrived, without those that are not final. So it holds no two entries with
  the same id; every entry is the segment of the latest \<^verbatim>\<open>onSegmentComplete\<close> call with its
  id, and every such latest segment that is final is an entry; and it is sorted by
  timestamp whenever the final commits arrive in the order of their timestamps.
\<close>

theorem getAllSegments_latest_commits:
  assumes "transcriptSegments st = []"
  shows "getAllSegments (run_segments evs st) = filter isFinal (latest_commits (committed evs)) \<and>
         distinct (map seg_id (getAllSegments (run_segments evs st))) \<and>
         (\<forall>s \<in> set (getAllSegments (run_segments evs st)).
            latest (committed evs) (seg_id s) = Some s) \<and>
         (\<forall>x s. latest (committed evs) x = Some s \<and> isFinal s \<longrightarrow>
            s \<in> set (getAllSegments (run_segments evs st))) \<and>
         subseq (getAllSegments (run_segments evs st)) (filter isFinal (committed evs)) \<and>
         (sorted (map timestamp (filter isFinal (committed evs))) \<longrightarrow>
            sorted (map timestamp (getAllSegments (run_segments evs st))))"
proof (intro conjI impI allI)
  show "getAllSegments (run_segments evs st) = filter isFinal (latest_commits (committed evs))"
    using assms by (rule finals_are_latest_commits)
  have "distinct (map seg_id (getAllSegments st))"
    using assms by (simp add: getAllSegments_def)
  then show "distinct (map seg_id (getAllSegments (run_segments evs st)))"
    by (rule distinct_finals_run)
  show "\<forall>s \<in> set (getAllSegments (run_segments evs st)).
          latest (committed evs) (seg_id s) = Some s"
    using assms by (rule finals_latest_run)
  show "subseq (getAllSegments (run_segments evs st)) (filter isFinal (committed evs))"
    using assms by (rule subseq_finals_run)
next
  fix x s
  assume "latest (committed evs) x = Some s \<and> isFinal s"
  then show "s \<in> set (getAllSegments (run_segments evs st))"
    using latest_finals_run by blast
next
  assume "sorted (map timestamp (filter isFinal (committed evs)))"
  with assms show "sorted (map timestamp (getAllSegments (run_segments evs st)))"
    by (rule sorted_finals_run)
qed

theorem getAllSegments_latest_commits_witness:
  "transcriptSegments initial_transcription = [] \<and>
   sorted (map timestamp (filter isFinal (committed sorted_run))) \<and>
   latest (committed sorted_run) ''A'' = Some seg_hello \<and> isFinal seg_hello \<and>
   seg_hello \<in> set (getAllSegments (run_segments sorted_run initial_transcription)) \<and>
   distinct (map seg_id (getAllSegments (run_segments sorted_run initial_transcription))) \<and>
   sorted (map timestamp (getAllSegments (run_segments sorted_run initial_transcription))) \<and>
   getAllSegments (run_segments replay_run initial_transcription) = [seg_world, seg_hello]"
proof -
  have a: "transcriptSegments initial_transcription = []"
    by (simp add: initial_transcription_def)
  have b: "sorted (map timestamp (filter isFinal (committed sorted_run)))"
    by (simp add: sorted_run_def seg_hello_def seg_world_def)
  have c: "latest (committed sorted_run) ''A'' = Some seg_hello"
    by (simp add: sorted_run_def latest_def seg_hello_def seg_world_def)
  have d: "isFinal seg_hello"
    by (simp add: seg_hello_def)
  have e: "filter isFinal (latest_commits (committed replay_run)) = [seg_world, seg_hello]"
    by (simp add: replay_run_def seg_hello_def seg_world_def)
  have f: "getAllSegments (run_segments replay_run initial_transcription) = [seg_world, seg_hello]"
    using getAllSegments_latest_commits [OF a, of replay_run] e by simp
  show ?thesis
    using a b c d f getAllSegments_latest_commits [OF a, of sorted_run] by blast
qed

text \<open>
  Claim C1 as stated fails: the hook never sorts. After the commits \<open>B@1000\<close>, \<open>A@0\<close> and an
  interim update for \<open>A\<close>, the view is \<open>[B, A]\<close>, which is not sorted by timestamp, and its
  entry for \<open>A\<close> still reads \<open>hello\<close> although the latest segment handed in for \<open>A\<close> reads
  \<open>hullo\<close>.
\<close>

theorem getAllSegments_sorted_latest_counterexample:
  "map timestamp (getAllSegments (run_segments unsorted_run initial_transcription)) = [1000, 0] \<and>
   \<not> sorted (map timestamp (getAllSegments (run_segments unsorted_run initial_transcription))) \<and>
   map seg_id (getAllSegments (run_segments unsorted_run initial_transcription)) = [''B'', ''A''] \<and>
   map seg_text (getAllSegments (run_segments unsorted_run initial_transcription)) = [''world'', ''hello''] \<and>
   map_option seg_text (latest (upserted unsorted_run) ''A'') = Some ''hullo''"
  by (simp add: unsorted_run_def run_segments_def onSegmentComplete_def onTranscriptUpdate_def
        getAllSegments_def initial_transcription_def latest_def
        seg_hello_def seg_world_def seg_hullo_def)

text \<open>
  Claim C6, as the code has it. An \<^verbatim>\<open>onTranscriptUpdate\<close> with a segment that is not final
  leaves that segment as the only one that is not final, whatever was held before. When
  \<^verbatim>\<open>onSegmentComplete\<close> is only ever handed final segments, the segment collection never
  holds more than one segment that is not final, whatever the sequence of callbacks. In
  general every \<^verbatim>\<open>onSegmentComplete\<close> with a segment that is not final can add one more:
  the segments that are not final are at most one (or as many as there were at the start)
  plus the number of such commits.
\<close>

theorem at_most_one_interim:
  "(\<not> isFinal seg \<longrightarrow>
      filter (\<lambda>s. \<not> isFinal s) (transcriptSegments (onTranscriptUpdate seg st)) = [seg]) \<and>
   (length (filter (\<lambda>s. \<not> isFinal s) (transcriptSegments st)) \<le> 1 \<and>
    list_all isFinal (committed evs) \<longrightarrow>
      length (filter (\<lambda>s. \<not> isFinal s) (transcriptSegments (run_segments evs st))) \<le> 1) \<and>
   length (filter (\<lambda>s. \<not> isFinal s) (transcriptSegments (run_segments evs st)))
     \<le> max 1 (length (filter (\<lambda>s. \<not> isFinal s) (transcriptSegments st)))
         + length (filter (\<lambda>s. \<not> isFinal s) (committed evs))"
proof (intro conjI impI)
  assume "\<not> isFinal seg"
  then show "filter (\<lambda>s. \<not> isFinal s) (transcriptSegments (onTranscriptUpdate seg st)) = [seg]"
    by (rule interim_onTranscriptUpdate)
next
  assume "length (filter (\<lambda>s. \<not> isFinal s) (transcriptSegments st)) \<le> 1 \<and>
          list_all isFinal (committed evs)"
  then show "length (filter (\<lambda>s. \<not> isFinal s) (transcriptSegments (run_segments evs st))) \<le> 1"
    using interim_run [of st evs] by simp
next
  show "length (filter (\<lambda>s. \<not> isFinal s) (transcriptSegments (run_segments evs st)))
     \<le> max 1 (length (filter (\<lambda>s. \<not> isFinal s) (transcriptSegments st)))
         + length (filter (\<lambda>s. \<not> isFinal s) (committed evs))"
    by (rule interim_run_bound)
qed

theorem at_most_one_interim_witness:
  "length (filter (\<lambda>s. \<not> isFinal s) (transcriptSegments initial_transcription)) \<le> 1 \<and>
   list_all isFinal (committed [TranscriptUpdate seg_hullo, SegmentComplete seg_hello]) \<and>
   \<not> isFinal seg_hullo \<and>
   length (filter (\<lambda>s. \<not> isFinal s)
      (transcriptSegments
         (run_segments [TranscriptUpdate seg_hullo, SegmentComplete seg_hello] initial_transcription))) \<le> 1 \<and>
   filter (\<lambda>s. \<not> isFinal s)
      (transcriptSegments (onTranscriptUpdate seg_hullo initial_transcription))
     = [seg_hullo]"
proof -
  have a: "length (filter (\<lambda>s. \<not> isFinal s) (transcriptSegments initial_transcription)) \<le> 1"
    by (simp add: initial_transcription_def)
  have b: "list_all isFinal (committed [TranscriptUpdate seg_hullo, SegmentComplete seg_hello])"
    by (simp add: seg_hello_def)
  have c: "\<not> isFinal seg_hullo" by (simp add: seg_hullo_def)
  show ?thesis
    using a b c
      at_most_one_interim [of seg_hullo initial_transcription
        "[TranscriptUpdate seg_hullo, SegmentComplete seg_hello]"]
    by blast
qed

text \<open>
  Claim C6 as stated fails: \<^verbatim>\<open>onSegmentComplete\<close> drops by id only and does not look at
  \<^verbatim>\<open>isFinal\<close>. After an interim update for \<open>A\<close> and a commit of a segment \<open>B\<close> that is not
  final, the collection holds two segments that are not final.
\<close>

theorem two_interim_counterexample:
  "map seg_id (transcriptSegments (run_segments interim_commit_run initial_transcription))
     = [''A'', ''B''] \<and>
   map isFinal (transcriptSegments (run_segments interim_commit_run initial_transcription))
     = [False, False]"
  by (simp add: interim_commit_run_def run_segments_def onTranscriptUpdate_def
        onSegmentComplete_def initial_transcription_def seg_hullo_def seg_wor_def)

text \<open>
  Claim C7. \<^verbatim>\<open>getFullTranscript()\<close> is the text of the final segments in their stored order,
  separated by exactly one space; segments that are not final contribute nothing, so
  dropping them from the collection does not change the result, and a collection holding
  only such segments yields the empty string.
\<close>

theorem getFullTranscript_final_texts:
  "getFullTranscript st = fullText_spec (getAllSegments st) \<and>
   getFullTranscript st = getFullTranscript (st\<lparr>transcriptSegments := getAllSegments st\<rparr>) \<and>
   ((\<forall>s \<in> set (transcriptSegments st). \<not> isFinal s) \<longrightarrow> getFullTranscript st = [])"
proof (intro conjI impI)
  show "getFullTranscript st = fullText_spec (getAllSegments st)"
    by (cases "filter isFinal (transcriptSegments st)")
       (simp_all add: getFullTranscript_def fullText_spec_def getAllSegments_def join_Cons comp_def)
  show "getFullTranscript st = getFullTranscript (st\<lparr>transcriptSegments := getAllSegments st\<rparr>)"
    by (simp add: getFullTranscript_def getAllSegments_def)
  assume "\<forall>s \<in> set (transcriptSegments st). \<not> isFinal s"
  then have "filter isFinal (transcriptSegments st) = []"
    by (simp add: filter_empty_conv)
  then show "getFullTranscript st = []"
    by (simp add: getFullTranscript_def)
qed

theorem getFullTranscript_final_texts_witness:
  "transcriptSegments (initial_transcription\<lparr>transcriptSegments := [seg_hullo]\<rparr>) = [seg_hullo] \<and>
   \<not> isFinal seg_hullo \<and>
   getFullTranscript (initial_transcription\<lparr>transcriptSegments := [seg_hullo]\<rparr>) = [] \<and>
   getFullTranscript (initial_transcription\<lparr>transcriptSegments := [seg_hello, seg_hullo, seg_world]\<rparr>)
     = ''hello world''"
proof -
  have i: "\<forall>s \<in> set (transcriptSegments (initial_transcription\<lparr>transcriptSegments := [seg_hullo]\<rparr>)).
             \<not> isFinal s"
    by (simp add: seg_hullo_def)
  have "getFullTranscript (initial_transcription\<lparr>transcriptSegments := [seg_hullo]\<rparr>) = []"
    using getFullTranscript_final_texts [of "initial_transcription\<lparr>transcriptSegments := [seg_hullo]\<rparr>"] i
    by blast
  moreover have "getFullTranscript
       (initial_transcription\<lparr>transcriptSegments := [seg_hello, seg_hullo, seg_world]\<rparr>) = ''hello world''"
    using getFullTranscript_final_texts
            [of "initial_transcription\<lparr>transcriptSegments := [seg_hello, seg_hullo, seg_world]\<rparr>"]
    by (simp add: fullText_spec_def getAllSegments_def seg_hello_def seg_hullo_def seg_world_def)
  ultimately show ?thesis
    by (simp add: seg_hullo_def)
qed

text \<open>
  Claim C8. A segment is handed to \<^verbatim>\<open>onTranscriptUpdate\<close> as interim; after any further
  callbacks a final segment with the same id and a corrected text is handed to
  \<^verbatim>\<open>onSegmentComplete\<close>; then, as long as no later commit carries that id,
  \<^verbatim>\<open>getAllSegments()\<close> holds exactly one entry with that id, and it is the corrected
  segment.
\<close>

theorem interim_then_final_one_entry:
  assumes "\<not> isFinal x" and "isFinal x'" and "seg_id x' = seg_id x"
      and "list_all (\<lambda>s. seg_id s \<noteq> seg_id x) (committed later)"
  shows "filter (\<lambda>s. seg_id s = seg_id x)
           (getAllSegments
              (run_segments (TranscriptUpdate x # between @ SegmentComplete x' # later) st)) = [x']"
proof -
  let ?before = "run_segments (TranscriptUpdate x # between) st"
  have "run_segments (TranscriptUpdate x # between @ SegmentComplete x' # later) st =
        run_segments later (onSegmentComplete x' ?before)"
    using run_segments_append [of "TranscriptUpdate x # between" "SegmentComplete x' # later" st]
    by (simp add: run_segments_Cons)
  moreover have "filter (\<lambda>s. seg_id s = seg_id x)
       (getAllSegments (run_segments later (onSegmentComplete x' ?before))) =
     filter (\<lambda>s. seg_id s = seg_id x) (getAllSegments (onSegmentComplete x' ?before))"
    using assms(4) by (rule entries_run_other)
  moreover have "filter (\<lambda>s. seg_id s = seg_id x) (getAllSegments (onSegmentComplete x' ?before)) = [x']"
    using entries_onSegmentComplete [OF assms(2), of ?before] assms(3) by simp
  ultimately show ?thesis by simp
qed

theorem interim_then_final_one_entry_witness:
  "\<not> isFinal seg_hullo \<and> isFinal seg_hello \<and> seg_id seg_hello = seg_id seg_hullo \<and>
   list_all (\<lambda>s. seg_id s \<noteq> seg_id seg_hullo) (committed [SegmentComplete seg_world]) \<and>
   filter (\<lambda>s. seg_id s = seg_id seg_hullo)
     (getAllSegments
        (run_segments (TranscriptUpdate seg_hullo # [] @ SegmentComplete seg_hello # [SegmentComplete seg_world])
           initial_transcription)) = [seg_hello] \<and>
   seg_text seg_hello = ''hello''"
proof -
  have a: "\<not> isFinal seg_hullo" by (simp add: seg_hullo_def)
  have b: "isFinal seg_hello" by (simp add: seg_hello_def)
  have c: "seg_id seg_hello = seg_id seg_hullo" by (simp add: seg_hello_def seg_hullo_def)
  have d: "list_all (\<lambda>s. seg_id s \<noteq> seg_id seg_hullo) (committed [SegmentComplete seg_world])"
    by (simp add: seg_world_def seg_hullo_def)
  show ?thesis
    using a b c d interim_then_final_one_entry [OF a b c d, of "[]" initial_transcription]
    by (simp add: seg_hello_def)
qed

section \<open>Claims about the hook's actions\<close>

text \<open>
  Claim C9, as the code has it. \<^verbatim>\<open>pauseListening()\<close> returns \<^verbatim>\<open>false\<close> and leaves the hook as
  it is unless the flags its callback captured at render say listening and not paused;
  \<^verbatim>\<open>resumeListening()\<close> resolves to \<^verbatim>\<open>false\<close> and leaves the hook as it is unless the flag
  its callback captured says paused. In those cases the speech service is not called. For
  a callback of the current render the captured flags are the hook's own, so there the
  guards read the current state.
\<close>

theorem pause_resume_guards:
  "(\<not> (captured_isListening \<and> \<not> captured_isPaused) \<longrightarrow>
      pauseListening now captured_isListening captured_isPaused fired result st = (False, st)) \<and>
   (\<not> captured_isPaused' \<longrightarrow>
      resumeListening now captured_isPaused' fired' result' st = (Some False, st)) \<and>
   (\<not> (isListening st \<and> \<not> isPaused st) \<longrightarrow>
      pauseListening now (isListening st) (isPaused st) fired result st = (False, st)) \<and>
   (\<not> isPaused st \<longrightarrow>
      resumeListening now (isPaused st) fired' result' st = (Some False, st))"
  by (auto simp: pauseListening_def resumeListening_def)

theorem pause_resume_guards_witness:
  "isListening paused_hook \<and> isPaused paused_hook \<and>
   pauseListening 7 (isListening paused_hook) (isPaused paused_hook)
      [StatusChange ''paused''] (Returns True) paused_hook = (False, paused_hook) \<and>
   \<not> isPaused listening_hook \<and>
   resumeListening 7 (isPaused listening_hook)
      [StatusChange ''listening''] (Some (Resolved True)) listening_hook
     = (Some False, listening_hook)"
proof -
  have a: "isListening paused_hook \<and> isPaused paused_hook"
    by (simp add: paused_hook_def listening_hook_def initial_transcription_def)
  have b: "\<not> isPaused listening_hook"
    by (simp add: listening_hook_def initial_transcription_def)
  show ?thesis
    using a b
      pause_resume_guards
        [of "isListening paused_hook" "isPaused paused_hook" 7 "[StatusChange ''paused'']"
            "Returns True" paused_hook]
      pause_resume_guards
        [of _ _ 7 _ _ listening_hook "isPaused listening_hook" "[StatusChange ''listening'']"
            "Some (Resolved True)"]
    by blast
qed

text \<open>
  Claim C9 as stated fails: the guards do not read the current state. A callback created
  while the hook was listening and not paused is called twice before the next render. The
  first call pauses the hook; the second passes the guard again, calls the service again
  and returns the service's \<^verbatim>\<open>true\<close>, although the hook is paused by then.
\<close>

theorem pause_stale_callback_counterexample:
  "isListening listening_hook \<and> \<not> isPaused listening_hook \<and>
   fst (pauseListening 7 (isListening listening_hook) (isPaused listening_hook)
          [StatusChange ''paused''] (Returns True) listening_hook) = True \<and>
   isPaused (snd (pauseListening 7 (isListening listening_hook) (isPaused listening_hook)
          [StatusChange ''paused''] (Returns True) listening_hook)) \<and>
   fst (pauseListening 8 (isListening listening_hook) (isPaused listening_hook) []
          (Returns True)
          (snd (pauseListening 7 (isListening listening_hook) (isPaused listening_hook)
                  [StatusChange ''paused''] (Returns True) listening_hook))) = True"
  by (simp add: pauseListening_def listening_hook_def initial_transcription_def run_service_def
        onStatusChange_def)

text \<open>
  Claim C10, as the code has it. With a speech service attached, \<^verbatim>\<open>stopListening()\<close> leaves
  the hook neither listening nor paused and with an empty interim transcript, whatever
  callbacks the service fires during the call and whether it returns or throws; when it
  throws, the call returns \<^verbatim>\<open>false\<close> and stores the error instead of passing it on. With
  no service attached it returns \<^verbatim>\<open>false\<close> at once and changes nothing: the hook stays
  as it was, listening and paused flags included.
\<close>

theorem stopListening_resets_state:
  "(speechServiceRef st \<noteq> None \<longrightarrow>
      \<not> isListening (snd (stopListening now fired result st)) \<and>
      \<not> isPaused (snd (stopListening now fired result st)) \<and>
      currentTranscript (snd (stopListening now fired result st)) = [] \<and>
      (result = Throws err \<longrightarrow>
         fst (stopListening now fired result st) = False \<and>
         error (snd (stopListening now fired result st)) =
           Some \<lparr>message = ''Failed to stop speech recognition'', cause = err,
                 err_timestamp = now\<rparr>)) \<and>
   (speechServiceRef st = None \<longrightarrow> stopListening now fired result st = (False, st))"
  by (cases result) (auto simp: stopListening_def Let_def)

theorem stopListening_resets_state_witness:
  "speechServiceRef listening_hook \<noteq> None \<and> isListening listening_hook \<and>
   \<not> isListening
      (snd (stopListening 7 [StatusChange ''listening''] (Throws ''boom'') listening_hook)) \<and>
   \<not> isPaused
      (snd (stopListening 7 [StatusChange ''listening''] (Throws ''boom'') listening_hook)) \<and>
   currentTranscript
      (snd (stopListening 7 [StatusChange ''listening''] (Throws ''boom'') listening_hook)) = [] \<and>
   fst (stopListening 7 [StatusChange ''listening''] (Throws ''boom'') listening_hook) = False \<and>
   speechServiceRef initial_transcription = None \<and>
   stopListening 7 [] (Returns True) initial_transcription = (False, initial_transcription)"
proof -
  have a: "speechServiceRef listening_hook \<noteq> None"
    by (simp add: listening_hook_def initial_transcription_def)
  have b: "isListening listening_hook"
    by (simp add: listening_hook_def initial_transcription_def)
  have c: "speechServiceRef initial_transcription = None"
    by (simp add: initial_transcription_def)
  show ?thesis
    using a b c
      stopListening_resets_state
        [of listening_hook 7 "[StatusChange ''listening'']" "Throws ''boom''" "''boom''"]
      stopListening_resets_state [of initial_transcription 7 "[]" "Returns True" "''boom''"]
    by simp
qed

text \<open>
  Claim C10 as stated fails: \<^verbatim>\<open>stopListening()\<close> returns before any reset when the service
  ref is \<^verbatim>\<open>null\<close>. A stop whose \<^verbatim>\<open>forceStop()\<close> times out drops the service ref while the
  service's callbacks stay wired; when that service then reports \<open>listening\<close>, the hook is
  listening without a service, and \<^verbatim>\<open>stopListening()\<close> returns \<^verbatim>\<open>false\<close> and leaves it
  listening.
\<close>

theorem stopListening_detached_counterexample:
  "speechServiceRef detached_listening_hook = None \<and>
   isListening detached_listening_hook \<and>
   stopListening 9 [] (Returns True) detached_listening_hook = (False, detached_listening_hook) \<and>
   isListening (snd (stopListening 9 [] (Returns True) detached_listening_hook))"
  by (simp add: detached_listening_hook_def recording_dashboard_def recording_hook_def
        initial_dashboard_def initial_transcription_def run_def handleRecordingStateChange_def
        forceStop_begin_def forceStop_settle_def onStatusChange_def stopListening_def Let_def)

section \<open>Properties of the stop sequence\<close>

subsection \<open>The stopping flag, the pending \<^verbatim>\<open>await\<close> and the save calls, step by step\<close>







lemma stop_fields_issue_save:
  "stop_task (issue_save d) = Some AwaitSave \<and> isStoppingRef (issue_save d) = isStoppingRef d \<and>
   length (saveMeetingSession_calls (issue_save d)) = Suc (length (saveMeetingSession_calls d))"
  by (simp add: issue_save_def Let_def)

lemma stop_fields_begin_save:
  "isStoppingRef (begin_save d) = isStoppingRef d \<and>
   (stop_task (begin_save d) = Some AwaitSave \<and>
    length (saveMeetingSession_calls (begin_save d)) = Suc (length (saveMeetingSession_calls d))
    \<or> stop_task (begin_save d) = Some AwaitStorageInit \<and>
      saveMeetingSession_calls (begin_save d) = saveMeetingSession_calls d)"
  using stop_fields_issue_save [of d] by (simp add: begin_save_def)

lemma stop_fields_begin_summary:
  "isStoppingRef (begin_summary d) = isStoppingRef d \<and>
   (stop_task (begin_summary d) = Some AwaitSave \<and>
    length (saveMeetingSession_calls (begin_summary d)) = Suc (length (saveMeetingSession_calls d))
    \<or> stop_task (begin_summary d) \<in> {Some AwaitStorageInit, Some AwaitSummary} \<and>
      saveMeetingSession_calls (begin_summary d) = saveMeetingSession_calls d)"
  using stop_fields_begin_save [of d] by (auto simp: begin_summary_def)

lemma stop_fields_after_stop_race:
  "isStoppingRef (after_stop_race r d) = isStoppingRef d \<and>
   (stop_task (after_stop_race r d) = Some AwaitSave \<and>
    length (saveMeetingSession_calls (after_stop_race r d)) = Suc (length (saveMeetingSession_calls d))
    \<or> stop_task (after_stop_race r d) \<in> {Some AwaitStorageInit, Some AwaitSummary} \<and>
      saveMeetingSession_calls (after_stop_race r d) = saveMeetingSession_calls d)"
proof (cases r)
  case (Resolved b)
  then show ?thesis using stop_fields_begin_summary [of d] by (simp add: after_stop_race_def)
next
  case (Rejected err)
  then show ?thesis
    using stop_fields_begin_summary
            [of "addNotification ''Warning: Transcription may not have stopped cleanly'' ''warning'' d"]
    by (simp add: after_stop_race_def addNotification_def)
qed

lemma stop_fields_finish:
  "stop_task (finish_stop d) = None \<and> \<not> isStoppingRef (finish_stop d) \<and>
   saveMeetingSession_calls (finish_stop d) = saveMeetingSession_calls d"
  by (simp add: finish_stop_def)



subsection \<open>One stop, one save call\<close>




lemma run_Nil: "run [] d = d"
  by (simp add: run_def)

lemma run_Cons: "run (ev # evs) d = run evs (step d ev)"
  by (simp add: run_def)





subsection \<open>Summary requests, step by step\<close>

lemma summary_calls_begin_save: "generateSummary_calls (begin_save d) = generateSummary_calls d"
  by (simp add: begin_save_def issue_save_def Let_def)

lemma summary_calls_save_failed: "generateSummary_calls (save_failed err d) = generateSummary_calls d"
  by (simp add: save_failed_def finish_stop_def addNotification_def)

lemma summary_calls_after_stop_race:
  "generateSummary_calls (after_stop_race result d) =
     (if transcriptSegments (transcriptionRef d) \<noteq> []
      then generateSummary_calls d @ [transcriptSegments (transcriptionRef d)]
      else generateSummary_calls d)"
  by (cases result)
     (simp_all add: after_stop_race_def begin_summary_def summary_calls_begin_save addNotification_def)

lemma summary_calls_step:
  "generateSummary_calls (step d ev) =
     (if is_stop_race_settled ev \<and> stop_task d = Some AwaitStopRace \<and>
         transcriptSegments (transcriptionRef d) \<noteq> []
      then generateSummary_calls d @ [transcriptSegments (transcriptionRef d)]
      else generateSummary_calls d)"
proof (cases ev)
  case (RecordingStateChange b)
  then show ?thesis
    by (auto simp: handleRecordingStateChange_def Let_def split: prod.splits)
next
  case Render
  then show ?thesis by (simp add: render_def Let_def)
next
  case (StopRaceSettled r)
  then show ?thesis by (simp add: summary_calls_after_stop_race)
next
  case (SummarySettled r)
  then show ?thesis by (cases r) (simp_all add: after_summary_def summary_calls_begin_save)
next
  case (StorageInitSettled r)
  then show ?thesis
    by (cases r) (simp_all add: after_storage_init_def issue_save_def summary_calls_save_failed Let_def)
next
  case (SaveSettled r)
  then show ?thesis
    by (cases r) (simp_all add: after_save_def summary_calls_save_failed finish_stop_def addNotification_def)
qed (simp_all add: after_start_def addNotification_def checkForSummaryGeneration_def
       autoSummaryTimeout_def Let_def)

lemma auto_calls_begin_save: "autoGenerateSummary_calls (begin_save d) = autoGenerateSummary_calls d"
  by (simp add: begin_save_def issue_save_def Let_def)

lemma auto_calls_save_failed:
  "autoGenerateSummary_calls (save_failed err d) = autoGenerateSummary_calls d"
  by (simp add: save_failed_def finish_stop_def addNotification_def)

lemma auto_calls_step:
  "autoGenerateSummary_calls (step d ev) =
     (if ev = AutoSummaryTimeout \<and> timeout_armed d \<and> transcriptSegments (transcriptionRef d) \<noteq> []
      then autoGenerateSummary_calls d @ [transcriptSegments (transcriptionRef d)]
      else autoGenerateSummary_calls d)"
proof (cases ev)
  case (RecordingStateChange b)
  then show ?thesis
    by (auto simp: handleRecordingStateChange_def Let_def split: prod.splits)
next
  case Render
  then show ?thesis by (simp add: render_def Let_def)
next
  case (StopRaceSettled r)
  then show ?thesis
    by (cases r)
       (simp_all add: after_stop_race_def begin_summary_def auto_calls_begin_save addNotification_def)
next
  case (SummarySettled r)
  then show ?thesis by (cases r) (simp_all add: after_summary_def auto_calls_begin_save)
next
  case (StorageInitSettled r)
  then show ?thesis
    by (cases r) (simp_all add: after_storage_init_def issue_save_def auto_calls_save_failed Let_def)
next
  case (SaveSettled r)
  then show ?thesis
    by (cases r) (simp_all add: after_save_def auto_calls_save_failed finish_stop_def addNotification_def)
qed (simp_all add: after_start_def addNotification_def checkForSummaryGeneration_def
       autoSummaryTimeout_def Let_def)


subsection \<open>Races against a timer\<close>

lemma race_timeout_settles:
  "\<exists>t r. race p (timeoutPromise delay msg) = Settles t r \<and> t \<le> delay"
  by (cases p) (auto simp: timeoutPromise_def)

subsection \<open>The stop sequence in time, step by step\<close>

lemmas stop_defs = after_stop_race_def begin_summary_def begin_save_def issue_save_def
  after_summary_def after_storage_init_def save_failed_def after_save_def finish_stop_def
  addNotification_def forceStop_settle_def render_def Let_def


lemma step_timeline_frame:
  assumes "timeline_event ev"
  shows "isRecordingSession (step d ev) = isRecordingSession d \<and>
         isListening (hook (step d ev)) = isListening (hook d) \<and>
         isPaused (hook (step d ev)) = isPaused (hook d)"
  using assms
  by (cases ev rule: timeline_event.cases)
     (auto simp: stop_defs split: settled.splits)

lemma step_hook_frame:
  assumes "timeline_event ev" and "\<not> is_forceStop_settled ev"
  shows "hook (step d ev) = hook d \<and> forceStops_pending (step d ev) = forceStops_pending d"
  using assms
  by (cases ev rule: timeline_event.cases)
     (auto simp: stop_defs split: settled.splits)

lemma step_waiting:
  assumes "timeline_event ev" and "\<not> is_stop_race_settled ev"
      and "stop_task d = Some AwaitStopRace"
  shows "stop_task (step d ev) = Some AwaitStopRace \<and>
         notifications (step d ev) = notifications d \<and>
         isStoppingRef (step d ev) = isStoppingRef d"
  using assms
  by (cases ev rule: timeline_event.cases)
     (auto simp: stop_defs split: settled.splits)

lemma step_proceeded:
  assumes "timeline_event ev" and "stop_task d \<noteq> Some AwaitStopRace"
  shows "stop_task (step d ev) \<noteq> Some AwaitStopRace \<and> warnings (step d ev) = warnings d"
  using assms
  by (cases ev rule: timeline_event.cases)
     (auto simp: stop_defs warnings_def split: settled.splits)

lemma step_race:
  assumes "stop_task d = Some AwaitStopRace"
  shows "stop_task (step d (StopRaceSettled r)) \<noteq> Some AwaitStopRace \<and>
         warnings (step d (StopRaceSettled (Rejected m))) =
           warnings d @ [(''Warning: Transcription may not have stopped cleanly'', ''warning'')]"
  using assms
  by (auto simp: stop_defs warnings_def split: settled.splits)

lemma step_awaiting_summary:
  assumes "timeline_event ev" and "\<not> is_summary_settled ev"
      and "isStoppingRef d" and "transcriptSegments (transcriptionRef d) \<noteq> []"
      and "transcriptSegments (hook d) \<noteq> []"
      and "stop_task d = Some AwaitStopRace \<or> stop_task d = Some AwaitSummary"
  shows "isStoppingRef (step d ev) \<and> transcriptSegments (transcriptionRef (step d ev)) \<noteq> [] \<and>
         transcriptSegments (hook (step d ev)) \<noteq> [] \<and>
         (stop_task (step d ev) = Some AwaitStopRace \<or> stop_task (step d ev) = Some AwaitSummary)"
  using assms
  by (cases ev rule: timeline_event.cases)
     (auto simp: stop_defs split: settled.splits)

subsection \<open>Runs of timeline events\<close>

lemma run_timeline_frame:
  "list_all timeline_event evs \<Longrightarrow>
   isRecordingSession (run evs d) = isRecordingSession d \<and>
   isListening (hook (run evs d)) = isListening (hook d) \<and>
   isPaused (hook (run evs d)) = isPaused (hook d)"
proof (induction evs arbitrary: d)
  case Nil
  show ?case by (simp add: run_Nil)
next
  case (Cons ev evs)
  then show ?case
    using step_timeline_frame [of ev d] by (simp add: run_Cons del: step.simps)
qed

lemma run_hook_frame:
  "list_all timeline_event evs \<Longrightarrow> filter is_forceStop_settled evs = [] \<Longrightarrow>
   hook (run evs d) = hook d"
proof (induction evs arbitrary: d)
  case Nil
  show ?case by (simp add: run_Nil)
next
  case (Cons ev evs)
  from Cons.prems have ev: "timeline_event ev" "\<not> is_forceStop_settled ev"
    and rest: "list_all timeline_event evs" "filter is_forceStop_settled evs = []"
    by (auto split: if_splits)
  show ?case
    using Cons.IH [OF rest, of "step d ev"] step_hook_frame [OF ev, of d]
    by (simp add: run_Cons del: step.simps)
qed

lemma run_handle_dropped:
  "list_all timeline_event evs \<Longrightarrow>
   filter is_forceStop_settled evs = [ForceStopSettled (Rejected m)] \<Longrightarrow>
   forceStops_pending d > 0 \<Longrightarrow>
   speechServiceRef (hook (run evs d)) = None"
proof (induction evs arbitrary: d)
  case Nil
  then show ?case by simp
next
  case (Cons ev evs)
  from Cons.prems(1) have tl: "timeline_event ev" and rest: "list_all timeline_event evs"
    by simp_all
  show ?case
  proof (cases "is_forceStop_settled ev")
    case True
    with Cons.prems(2) have ev: "ev = ForceStopSettled (Rejected m)"
      and none: "filter is_forceStop_settled evs = []"
      by simp_all
    have "speechServiceRef (hook (step d ev)) = None"
      using Cons.prems(3) by (simp add: ev forceStop_settle_def)
    then show ?thesis
      using run_hook_frame [OF rest none, of "step d ev"]
      by (simp add: run_Cons del: step.simps)
  next
    case False
    with Cons.prems(2) have one: "filter is_forceStop_settled evs = [ForceStopSettled (Rejected m)]"
      by simp
    have "forceStops_pending (step d ev) > 0"
      using step_hook_frame [OF tl False, of d] Cons.prems(3) by simp
    from Cons.IH [OF rest one this] show ?thesis
      by (simp add: run_Cons del: step.simps)
  qed
qed

lemma run_waiting:
  "list_all timeline_event evs \<Longrightarrow> filter is_stop_race_settled evs = [] \<Longrightarrow>
   stop_task d = Some AwaitStopRace \<Longrightarrow>
   stop_task (run evs d) = Some AwaitStopRace \<and> notifications (run evs d) = notifications d"
proof (induction evs arbitrary: d)
  case Nil
  then show ?case by (simp add: run_Nil)
next
  case (Cons ev evs)
  from Cons.prems have ev: "timeline_event ev" "\<not> is_stop_race_settled ev"
    and rest: "list_all timeline_event evs" "filter is_stop_race_settled evs = []"
    by (auto split: if_splits)
  from step_waiting [OF ev Cons.prems(3)]
  have s: "stop_task (step d ev) = Some AwaitStopRace"
    and n: "notifications (step d ev) = notifications d"
    by simp_all
  from Cons.IH [OF rest s] n show ?case
    by (simp add: run_Cons del: step.simps)
qed

lemma run_proceeded:
  "list_all timeline_event evs \<Longrightarrow> stop_task d \<noteq> Some AwaitStopRace \<Longrightarrow>
   stop_task (run evs d) \<noteq> Some AwaitStopRace \<and> warnings (run evs d) = warnings d"
proof (induction evs arbitrary: d)
  case Nil
  then show ?case by (simp add: run_Nil)
next
  case (Cons ev evs)
  from Cons.prems(1) have ev: "timeline_event ev" and rest: "list_all timeline_event evs"
    by simp_all
  from step_proceeded [OF ev Cons.prems(2)]
  have s: "stop_task (step d ev) \<noteq> Some AwaitStopRace"
    and w: "warnings (step d ev) = warnings d"
    by simp_all
  from Cons.IH [OF rest s] w show ?case
    by (simp add: run_Cons del: step.simps)
qed

lemma run_race_settled:
  "list_all timeline_event evs \<Longrightarrow>
   filter is_stop_race_settled evs = [StopRaceSettled r] \<Longrightarrow>
   stop_task d = Some AwaitStopRace \<Longrightarrow>
   stop_task (run evs d) \<noteq> Some AwaitStopRace \<and>
   (r = Rejected m \<longrightarrow>
      warnings (run evs d) =
        warnings d @ [(''Warning: Transcription may not have stopped cleanly'', ''warning'')])"
proof (induction evs arbitrary: d)
  case Nil
  then show ?case by simp
next
  case (Cons ev evs)
  from Cons.prems(1) have tl: "timeline_event ev" and rest: "list_all timeline_event evs"
    by simp_all
  show ?case
  proof (cases "is_stop_race_settled ev")
    case True
    with Cons.prems(2) have ev: "ev = StopRaceSettled r"
      by simp
    from step_race [OF Cons.prems(3), of r m]
    have s: "stop_task (step d ev) \<noteq> Some AwaitStopRace"
      and w: "r = Rejected m \<longrightarrow> warnings (step d ev) =
          warnings d @ [(''Warning: Transcription may not have stopped cleanly'', ''warning'')]"
      by (simp_all add: ev del: step.simps)
    from run_proceeded [OF rest s] w show ?thesis
      by (simp add: run_Cons del: step.simps)
  next
    case False
    with Cons.prems(2) have one: "filter is_stop_race_settled evs = [StopRaceSettled r]"
      by simp
    from step_waiting [OF tl False Cons.prems(3)]
    have s: "stop_task (step d ev) = Some AwaitStopRace"
      and n: "notifications (step d ev) = notifications d"
      by simp_all
    from n have "warnings (step d ev) = warnings d"
      by (simp add: warnings_def)
    with Cons.IH [OF rest one s] show ?thesis
      by (simp add: run_Cons del: step.simps)
  qed
qed

lemma run_awaiting_summary:
  "list_all timeline_event evs \<Longrightarrow> filter is_summary_settled evs = [] \<Longrightarrow>
   isStoppingRef d \<Longrightarrow> transcriptSegments (transcriptionRef d) \<noteq> [] \<Longrightarrow>
   transcriptSegments (hook d) \<noteq> [] \<Longrightarrow>
   stop_task d = Some AwaitStopRace \<or> stop_task d = Some AwaitSummary \<Longrightarrow>
   isStoppingRef (run evs d)"
proof (induction evs arbitrary: d)
  case Nil
  then show ?case by (simp add: run_Nil)
next
  case (Cons ev evs)
  from Cons.prems have ev: "timeline_event ev" "\<not> is_summary_settled ev"
    and rest: "list_all timeline_event evs" "filter is_summary_settled evs = []"
    by (auto split: if_splits)
  from step_awaiting_summary [OF ev Cons.prems(3,4,5,6)]
  have "isStoppingRef (step d ev)" "transcriptSegments (transcriptionRef (step d ev)) \<noteq> []"
    "transcriptSegments (hook (step d ev)) \<noteq> []"
    "stop_task (step d ev) = Some AwaitStopRace \<or> stop_task (step d ev) = Some AwaitSummary"
    by simp_all
  from Cons.IH [OF rest this] show ?case
    by (simp add: run_Cons del: step.simps)
qed

subsection \<open>The events of a timeline\<close>

lemma with_ticks_all:
  "list_all timeline_event (with_ticks limit elapsed xs) = list_all (\<lambda>p. timeline_event (snd p)) xs"
  by (induction limit elapsed xs rule: with_ticks.induct) simp_all

lemma with_ticks_filter:
  assumes "\<And>n. \<not> P (Tick n)" and "\<not> P Render"
  shows "filter P (with_ticks limit elapsed xs) = filter P (map snd xs)"
  using assms by (induction limit elapsed xs rule: with_ticks.induct) simp_all

lemma save_events_kind:
  "list_all (\<lambda>p. timeline_event (snd p) \<and> \<not> is_stop_race_settled (snd p) \<and>
      \<not> is_forceStop_settled (snd p) \<and> \<not> is_summary_settled (snd p)) (save_events env t d)"
  by (simp add: save_events_def split: promise.splits)

lemma storage_events_kind:
  "list_all (\<lambda>p. timeline_event (snd p) \<and> \<not> is_stop_race_settled (snd p) \<and>
      \<not> is_forceStop_settled (snd p) \<and> \<not> is_summary_settled (snd p)) (storage_events env t d)"
  using save_events_kind by (simp add: storage_events_def split: promise.splits)

lemma summary_events_kind:
  "list_all (\<lambda>p. timeline_event (snd p) \<and> \<not> is_stop_race_settled (snd p) \<and>
      \<not> is_forceStop_settled (snd p)) (summary_events env t d)"
proof -
  have "list_all (\<lambda>p. timeline_event (snd p) \<and> \<not> is_stop_race_settled (snd p) \<and>
      \<not> is_forceStop_settled (snd p)) (storage_events env u d')" for u d'
    using storage_events_kind [of env u d'] by (simp add: list_all_iff)
  then show ?thesis
    by (simp add: summary_events_def split: promise.splits)
qed

lemma summary_events_never:
  "summary_settles env = Never \<Longrightarrow>
   list_all (\<lambda>p. \<not> is_summary_settled (snd p)) (summary_events env t d)"
  using storage_events_kind [of env t d]
  by (simp add: summary_events_def list_all_iff)

subsection \<open>What a timeline holds up to a given time\<close>

lemma state_at_run:
  "state_at env d t =
     run (timeline_until env d t) (step (step d (RecordingStateChange False)) Render)"
  by (simp add: state_at_def)

lemma timeline_until_filter:
  assumes "\<And>n. \<not> P (Tick n)" and "\<not> P Render"
  shows "filter P (timeline_until env d t) =
           map snd (sort_key fst
             (filter (\<lambda>p. P (snd p) \<and> fst p \<le> t) (hook_events env d @ dashboard_events env d)))"
proof -
  have "filter P (timeline_until env d t) =
          filter P (map snd (filter (\<lambda>p. fst p \<le> t) (stop_timeline env d)))"
    unfolding timeline_until_def using assms by (rule with_ticks_filter)
  also have "\<dots> = map snd (filter (\<lambda>p. P (snd p) \<and> fst p \<le> t) (stop_timeline env d))"
    by (simp add: filter_map comp_def conj_commute)
  also have "\<dots> = map snd (sort_key fst
             (filter (\<lambda>p. P (snd p) \<and> fst p \<le> t) (hook_events env d @ dashboard_events env d)))"
    unfolding stop_timeline_def by (simp only: filter_sort)
  finally show ?thesis .
qed

lemma hook_events_kind:
  "list_all (\<lambda>p. timeline_event (snd p) \<and> \<not> is_stop_race_settled (snd p) \<and>
      \<not> is_summary_settled (snd p)) (hook_events env d)"
  by (simp add: hook_events_def split: promise.splits)

lemma dashboard_events_shape:
  "\<exists>t1 r1. t1 \<le> stopDeadlineMs \<and>
     stop_wait (speechServiceRef (hook d) \<noteq> None) (cleanup_settles env) = Settles t1 r1 \<and>
     dashboard_events env d =
       (t1, StopRaceSettled r1)
         # summary_events env t1 (step (step (step d (RecordingStateChange False)) Render) (StopRaceSettled r1))"
proof -
  obtain t1 r1 where
    w: "stop_wait (speechServiceRef (hook d) \<noteq> None) (cleanup_settles env) = Settles t1 r1"
    and t1: "t1 \<le> stopDeadlineMs"
    unfolding stop_wait_def using race_timeout_settles by blast
  then show ?thesis
    by (simp add: dashboard_events_def del: step.simps)
qed

lemma timeline_until_all: "list_all timeline_event (timeline_until env d t)"
proof -
  obtain t1 r1 where
    shape: "dashboard_events env d =
       (t1, StopRaceSettled r1)
         # summary_events env t1 (step (step (step d (RecordingStateChange False)) Render) (StopRaceSettled r1))"
    using dashboard_events_shape by blast
  have "list_all (\<lambda>p. timeline_event (snd p)) (hook_events env d @ dashboard_events env d)"
    using hook_events_kind [of env d]
      summary_events_kind [of env t1 "step (step (step d (RecordingStateChange False)) Render) (StopRaceSettled r1)"]
    by (simp add: shape list_all_iff del: step.simps) blast
  then have "list_all (\<lambda>p. timeline_event (snd p))
               (filter (\<lambda>p. fst p \<le> t) (stop_timeline env d))"
    by (simp add: stop_timeline_def list_all_iff)
  then show ?thesis
    by (simp add: timeline_until_def with_ticks_all)
qed

lemma timeline_until_race:
  assumes "stop_wait (speechServiceRef (hook d) \<noteq> None) (cleanup_settles env) = Settles t1 r1"
  shows "filter is_stop_race_settled (timeline_until env d t) =
           (if t1 \<le> t then [StopRaceSettled r1] else [])"
proof -
  let ?d2 = "step (step (step d (RecordingStateChange False)) Render) (StopRaceSettled r1)"
  have shape: "dashboard_events env d = (t1, StopRaceSettled r1) # summary_events env t1 ?d2"
    using assms by (simp add: dashboard_events_def del: step.simps)
  have h: "filter (\<lambda>p. is_stop_race_settled (snd p) \<and> fst p \<le> t) (hook_events env d) = []"
    using hook_events_kind [of env d] by (simp add: filter_empty_conv list_all_iff)
  have s: "filter (\<lambda>p. is_stop_race_settled (snd p) \<and> fst p \<le> t) (summary_events env t1 ?d2) = []"
    using summary_events_kind [of env t1 ?d2]
    by (simp add: filter_empty_conv list_all_iff del: step.simps)
  have "filter is_stop_race_settled (timeline_until env d t) =
          map snd (sort_key fst
             (filter (\<lambda>p. is_stop_race_settled (snd p) \<and> fst p \<le> t)
                (hook_events env d @ dashboard_events env d)))"
    by (rule timeline_until_filter) simp_all
  then show ?thesis
    by (simp add: shape h s del: step.simps)
qed

lemma timeline_until_forceStop:
  assumes "speechServiceRef (hook d) \<noteq> None" and "cleanup_settles env = Never"
  shows "filter is_forceStop_settled (timeline_until env d t) =
           (if forceStopTimeoutMs \<le> t then [ForceStopSettled (Rejected ''Force stop timeout'')]
            else [])"
proof -
  obtain t1 r1 where
    shape: "dashboard_events env d =
       (t1, StopRaceSettled r1)
         # summary_events env t1 (step (step (step d (RecordingStateChange False)) Render) (StopRaceSettled r1))"
    using dashboard_events_shape by blast
  have h: "hook_events env d =
             [(forceStopTimeoutMs, ForceStopSettled (Rejected ''Force stop timeout''))]"
    using assms by (simp add: hook_events_def timeoutPromise_def)
  have s: "filter (\<lambda>p. is_forceStop_settled (snd p) \<and> fst p \<le> t)
             (summary_events env t1
                (step (step (step d (RecordingStateChange False)) Render) (StopRaceSettled r1))) = []"
    using summary_events_kind
            [of env t1 "step (step (step d (RecordingStateChange False)) Render) (StopRaceSettled r1)"]
    by (simp add: filter_empty_conv list_all_iff del: step.simps)
  have "filter is_forceStop_settled (timeline_until env d t) =
          map snd (sort_key fst
             (filter (\<lambda>p. is_forceStop_settled (snd p) \<and> fst p \<le> t)
                (hook_events env d @ dashboard_events env d)))"
    by (rule timeline_until_filter) simp_all
  then show ?thesis
    by (simp add: shape h s del: step.simps)
qed

lemma timeline_until_no_summary:
  assumes "summary_settles env = Never"
  shows "filter is_summary_settled (timeline_until env d t) = []"
proof -
  obtain t1 r1 where
    shape: "dashboard_events env d =
       (t1, StopRaceSettled r1)
         # summary_events env t1 (step (step (step d (RecordingStateChange False)) Render) (StopRaceSettled r1))"
    using dashboard_events_shape by blast
  have h: "filter (\<lambda>p. is_summary_settled (snd p) \<and> fst p \<le> t) (hook_events env d) = []"
    using hook_events_kind [of env d] by (simp add: filter_empty_conv list_all_iff)
  have s: "filter (\<lambda>p. is_summary_settled (snd p) \<and> fst p \<le> t)
             (summary_events env t1
                (step (step (step d (RecordingStateChange False)) Render) (StopRaceSettled r1))) = []"
    using summary_events_never [OF assms,
            of t1 "step (step (step d (RecordingStateChange False)) Render) (StopRaceSettled r1)"]
    by (simp add: filter_empty_conv list_all_iff del: step.simps)
  have "filter is_summary_settled (timeline_until env d t) =
          map snd (sort_key fst
             (filter (\<lambda>p. is_summary_settled (snd p) \<and> fst p \<le> t)
                (hook_events env d @ dashboard_events env d)))"
    by (rule timeline_until_filter) simp_all
  then show ?thesis
    by (simp add: shape h s del: step.simps)
qed

lemma stop_accepted:
  assumes "rendered_isRecordingSession d" and "\<not> isStoppingRef d"
  shows "stop_task (step (step d (RecordingStateChange False)) Render) = Some AwaitStopRace \<and>
         isStoppingRef (step (step d (RecordingStateChange False)) Render) \<and>
         \<not> isRecordingSession (step (step d (RecordingStateChange False)) Render) \<and>
         notifications (step (step d (RecordingStateChange False)) Render) = notifications d \<and>
         transcriptSegments (transcriptionRef (step (step d (RecordingStateChange False)) Render))
           = transcriptSegments (hook d) \<and>
         transcriptSegments (hook (step (step d (RecordingStateChange False)) Render))
           = transcriptSegments (hook d) \<and>
         speechServiceRef (hook (step (step d (RecordingStateChange False)) Render))
           = speechServiceRef (hook d) \<and>
         (speechServiceRef (hook d) \<noteq> None \<longrightarrow>
            \<not> isListening (hook (step (step d (RecordingStateChange False)) Render)) \<and>
            \<not> isPaused (hook (step (step d (RecordingStateChange False)) Render)) \<and>
            forceStops_pending (step (step d (RecordingStateChange False)) Render) > 0)"
  using assms
  by (auto simp: handleRecordingStateChange_def forceStop_begin_def render_def Let_def)

subsection \<open>The clock along a timeline\<close>

lemma step_clock:
  assumes "timeline_event ev"
  shows "clock (step d ev) = clock d + (case ev of Tick n \<Rightarrow> n | _ \<Rightarrow> 0)"
  using assms
  by (cases ev rule: timeline_event.cases)
     (auto simp: stop_defs split: settled.splits)

lemma with_ticks_clock:
  "sorted (map fst xs) \<Longrightarrow> \<forall>p \<in> set xs. elapsed \<le> fst p \<and> fst p \<le> limit \<Longrightarrow>
   elapsed \<le> limit \<Longrightarrow>
   list_all (\<lambda>p. timeline_event (snd p) \<and> (case snd p of Tick n \<Rightarrow> False | _ \<Rightarrow> True)) xs \<Longrightarrow>
   clock (run (with_ticks limit elapsed xs) d) = clock d + (limit - elapsed)"
proof (induction limit elapsed xs arbitrary: d rule: with_ticks.induct)
  case (1 limit elapsed)
  show ?case by (simp add: run_def)
next
  case (2 limit elapsed due ev later)
  let ?d' = "step (step (step d (Tick (due - elapsed))) ev) Render"
  from "2.prems"(4) have ev: "timeline_event ev"
    and nt: "(case ev of Tick n \<Rightarrow> False | _ \<Rightarrow> True)"
    and rest: "list_all (\<lambda>p. timeline_event (snd p) \<and> (case snd p of Tick n \<Rightarrow> False | _ \<Rightarrow> True)) later"
    by simp_all
  from "2.prems"(2) have b: "elapsed \<le> due" "due \<le> limit"
    by simp_all
  from "2.prems"(1) have s: "sorted (map fst later)" and lo: "\<forall>p \<in> set later. due \<le> fst p"
    by simp_all
  from "2.prems"(2) have hi: "\<forall>p \<in> set later. fst p \<le> limit"
    by simp
  have "clock (step (step d (Tick (due - elapsed))) ev) = clock d + (due - elapsed)"
    using step_clock [OF ev, of "step d (Tick (due - elapsed))"] nt
    by (cases ev) simp_all
  then have c: "clock ?d' = clock d + (due - elapsed)"
    using step_clock [of Render "step (step d (Tick (due - elapsed))) ev"]
    by (simp del: step.simps)
  have "clock (run (with_ticks limit due later) ?d') = clock ?d' + (limit - due)"
    using s lo hi b(2) rest by (intro "2.IH") simp_all
  with c b have "clock (run (with_ticks limit due later) ?d') = clock d + (limit - elapsed)"
    by simp
  then show ?case
    by (simp add: run_def del: step.simps)
qed


lemma save_events_settled:
  "list_all (\<lambda>p. timeline_event (snd p) \<and> (case snd p of Tick n \<Rightarrow> False | _ \<Rightarrow> True))
     (save_events env t d)"
  by (simp add: save_events_def split: promise.splits)

lemma storage_events_settled:
  "list_all (\<lambda>p. timeline_event (snd p) \<and> (case snd p of Tick n \<Rightarrow> False | _ \<Rightarrow> True))
     (storage_events env t d)"
  using save_events_settled by (simp add: storage_events_def split: promise.splits)

lemma summary_events_settled:
  "list_all (\<lambda>p. timeline_event (snd p) \<and> (case snd p of Tick n \<Rightarrow> False | _ \<Rightarrow> True))
     (summary_events env t d)"
  using storage_events_settled by (simp add: summary_events_def split: promise.splits)

lemma hook_events_settled:
  "list_all (\<lambda>p. timeline_event (snd p) \<and> (case snd p of Tick n \<Rightarrow> False | _ \<Rightarrow> True))
     (hook_events env d)"
  by (simp add: hook_events_def split: promise.splits)

lemma stop_timeline_settled:
  "list_all (\<lambda>p. timeline_event (snd p) \<and> (case snd p of Tick n \<Rightarrow> False | _ \<Rightarrow> True))
     (stop_timeline env d)"
proof -
  obtain t1 r1 where
    shape: "dashboard_events env d =
       (t1, StopRaceSettled r1)
         # summary_events env t1 (step (step (step d (RecordingStateChange False)) Render) (StopRaceSettled r1))"
    using dashboard_events_shape by blast
  have "list_all (\<lambda>p. timeline_event (snd p) \<and> (case snd p of Tick n \<Rightarrow> False | _ \<Rightarrow> True))
          (hook_events env d @ dashboard_events env d)"
    unfolding shape using hook_events_settled [of env d]
      summary_events_settled
        [of env t1 "step (step (step d (RecordingStateChange False)) Render) (StopRaceSettled r1)"]
    by (simp del: step.simps)
  then show ?thesis
    unfolding stop_timeline_def list_all_iff by (simp only: set_sort)
qed

lemma state_at_clock:
  "clock (state_at env d t) = clock (step (step d (RecordingStateChange False)) Render) + t"
proof -
  let ?xs = "filter (\<lambda>p. fst p \<le> t) (stop_timeline env d)"
  have 1: "sorted (map fst ?xs)"
    by (simp add: stop_timeline_def sorted_filter)
  have 2: "\<forall>p \<in> set ?xs. 0 \<le> fst p \<and> fst p \<le> t" by simp
  have 3: "list_all (\<lambda>p. timeline_event (snd p) \<and> (case snd p of Tick n \<Rightarrow> False | _ \<Rightarrow> True)) ?xs"
    using stop_timeline_settled [of env d] unfolding list_all_iff by simp
  have "clock (run (with_ticks t 0 ?xs) (step (step d (RecordingStateChange False)) Render)) =
      clock (step (step d (RecordingStateChange False)) Render) + (t - 0)"
    using 1 2 _ 3 by (rule with_ticks_clock) simp
  then show ?thesis by (simp add: state_at_def timeline_until_def del: step.simps)
qed

lemma handler_clock: "clock (step (step d (RecordingStateChange b)) Render) = clock d"
  by (auto simp: handleRecordingStateChange_def render_def Let_def split: prod.splits)


subsection \<open>The handler sees only its own settlements\<close>

lemma step_view_other:
  assumes "timeline_event ev" and "\<not> is_handler_settlement ev"
      and "(transcriptSegments (hook d) = []) = (transcriptSegments (transcriptionRef d) = [])"
  shows "stop_view (step d ev) = stop_view d \<and>
         (transcriptSegments (hook (step d ev)) = [])
           = (transcriptSegments (transcriptionRef (step d ev)) = [])"
  using assms
  by (cases ev rule: timeline_event.cases)
     (auto simp: stop_defs stop_view_def split: settled.splits)

lemma step_view_settlement:
  assumes "is_handler_settlement ev" and "stop_view d = stop_view d'"
  shows "stop_view (step d ev) = stop_view (step d' ev) \<and>
         transcriptSegments (hook (step d ev)) = transcriptSegments (hook d) \<and>
         transcriptSegments (transcriptionRef (step d ev)) = transcriptSegments (transcriptionRef d)"
  using assms
  by (cases ev rule: is_handler_settlement.cases)
     (auto simp: stop_defs stop_view_def split: settled.splits)

lemma run_view:
  "list_all timeline_event evs \<Longrightarrow>
   (transcriptSegments (hook d) = []) = (transcriptSegments (transcriptionRef d) = []) \<Longrightarrow>
   stop_view d = stop_view d' \<Longrightarrow>
   stop_view (run evs d) = stop_view (run (filter is_handler_settlement evs) d')"
proof (induction evs arbitrary: d d')
  case Nil
  then show ?case by (simp add: run_Nil)
next
  case (Cons ev evs)
  from Cons.prems(1) have ev: "timeline_event ev" and rest: "list_all timeline_event evs"
    by simp_all
  show ?case
  proof (cases "is_handler_settlement ev")
    case True
    from step_view_settlement [OF True Cons.prems(3)] Cons.prems(2)
    have v: "stop_view (step d ev) = stop_view (step d' ev)"
      and c: "(transcriptSegments (hook (step d ev)) = [])
                = (transcriptSegments (transcriptionRef (step d ev)) = [])"
      by simp_all
    from Cons.IH [OF rest c v] True show ?thesis
      by (simp add: run_Cons del: step.simps)
  next
    case False
    from step_view_other [OF ev False Cons.prems(2)] Cons.prems(3)
    have v: "stop_view (step d ev) = stop_view d'"
      and c: "(transcriptSegments (hook (step d ev)) = [])
                = (transcriptSegments (transcriptionRef (step d ev)) = [])"
      by simp_all
    from Cons.IH [OF rest c v] False show ?thesis
      by (simp add: run_Cons del: step.simps)
  qed
qed

subsection \<open>When the handler's settlements fall\<close>

lemma save_events_times:
  "save_settles env = Settles c rc \<Longrightarrow>
   list_all (\<lambda>p. is_handler_settlement (snd p) \<and> t \<le> fst p \<and> fst p \<le> t + c)
     (save_events env t d) \<and>
   sorted (map fst (save_events env t d))"
  by (simp add: save_events_def)

lemma storage_events_times:
  assumes "storageInit_settles env = Settles b rb" and "save_settles env = Settles c rc"
  shows "list_all (\<lambda>p. is_handler_settlement (snd p) \<and> t \<le> fst p \<and> fst p \<le> t + b + c)
           (storage_events env t d) \<and>
         sorted (map fst (storage_events env t d))"
proof (cases "stop_task d = Some AwaitStorageInit")
  case True
  let ?d' = "step d (StorageInitSettled rb)"
  from save_events_times [OF assms(2), of "t + b" ?d']
  have k: "list_all (\<lambda>p. is_handler_settlement (snd p) \<and> t + b \<le> fst p \<and> fst p \<le> t + b + c)
             (save_events env (t + b) ?d')"
    and s: "sorted (map fst (save_events env (t + b) ?d'))"
    by (simp_all del: step.simps)
  from k have k': "list_all (\<lambda>p. is_handler_settlement (snd p) \<and> t \<le> fst p \<and> fst p \<le> t + b + c)
             (save_events env (t + b) ?d')"
    by (auto simp: list_all_iff simp del: step.simps)
  from k have lo: "\<forall>p \<in> set (save_events env (t + b) ?d'). t + b \<le> fst p"
    by (simp add: list_all_iff del: step.simps)
  show ?thesis
    using True assms(1) k' s lo
    by (simp add: storage_events_def del: step.simps)
next
  case False
  from save_events_times [OF assms(2), of t d]
  have "list_all (\<lambda>p. is_handler_settlement (snd p) \<and> t \<le> fst p \<and> fst p \<le> t + b + c)
             (save_events env t d)"
    and "sorted (map fst (save_events env t d))"
    by (auto simp: list_all_iff)
  with False show ?thesis
    by (simp add: storage_events_def)
qed

lemma summary_events_times:
  assumes "summary_settles env = Settles a ra"
      and "storageInit_settles env = Settles b rb" and "save_settles env = Settles c rc"
  shows "list_all (\<lambda>p. is_handler_settlement (snd p) \<and> t \<le> fst p \<and> fst p \<le> t + a + b + c)
           (summary_events env t d) \<and>
         sorted (map fst (summary_events env t d))"
proof (cases "stop_task d = Some AwaitSummary")
  case True
  let ?d' = "step d (SummarySettled ra)"
  from storage_events_times [OF assms(2,3), of "t + a" ?d']
  have k: "list_all (\<lambda>p. is_handler_settlement (snd p) \<and> t + a \<le> fst p \<and> fst p \<le> t + a + b + c)
             (storage_events env (t + a) ?d')"
    and s: "sorted (map fst (storage_events env (t + a) ?d'))"
    by (simp_all del: step.simps)
  from k have k': "list_all (\<lambda>p. is_handler_settlement (snd p) \<and> t \<le> fst p \<and> fst p \<le> t + a + b + c)
             (storage_events env (t + a) ?d')"
    by (auto simp: list_all_iff simp del: step.simps)
  from k have lo: "\<forall>p \<in> set (storage_events env (t + a) ?d'). t + a \<le> fst p"
    by (simp add: list_all_iff del: step.simps)
  show ?thesis
    using True assms(1) k' s lo
    by (simp add: summary_events_def del: step.simps)
next
  case False
  from storage_events_times [OF assms(2,3), of t d]
  have "list_all (\<lambda>p. is_handler_settlement (snd p) \<and> t \<le> fst p \<and> fst p \<le> t + a + b + c)
             (storage_events env t d)"
    and "sorted (map fst (storage_events env t d))"
    by (auto simp: list_all_iff)
  with False show ?thesis
    by (simp add: summary_events_def)
qed

subsection \<open>The handler's settlements bring it to its end\<close>

lemma save_events_return:
  assumes "save_settles env = Settles c rc"
      and "stop_task d = Some AwaitSave \<or> stop_task d = None"
  shows "stop_task (run (map snd (save_events env t d)) d) = None \<and>
         (if stop_task d = None
          then isStoppingRef (run (map snd (save_events env t d)) d) = isStoppingRef d
          else \<not> isStoppingRef (run (map snd (save_events env t d)) d))"
  using assms
  by (auto simp: save_events_def run_def after_save_def save_failed_def finish_stop_def
        addNotification_def split: settled.splits)

lemma storage_events_return:
  assumes "storageInit_settles env = Settles b rb" and "save_settles env = Settles c rc"
      and "stop_task d = Some AwaitStorageInit \<or> stop_task d = Some AwaitSave \<or> stop_task d = None"
  shows "stop_task (run (map snd (storage_events env t d)) d) = None \<and>
         (if stop_task d = None
          then isStoppingRef (run (map snd (storage_events env t d)) d) = isStoppingRef d
          else \<not> isStoppingRef (run (map snd (storage_events env t d)) d))"
proof (cases "stop_task d = Some AwaitStorageInit")
  case True
  let ?d' = "step d (StorageInitSettled rb)"
  have p: "stop_task ?d' = Some AwaitSave \<or> stop_task ?d' = None \<and> \<not> isStoppingRef ?d'"
    using True
    by (cases rb) (simp_all add: after_storage_init_def issue_save_def save_failed_def
                     finish_stop_def addNotification_def Let_def)
  then have p': "stop_task ?d' = Some AwaitSave \<or> stop_task ?d' = None"
    by auto
  from save_events_return [OF assms(2) p', of "t + b"] p
  have "stop_task (run (map snd (save_events env (t + b) ?d')) ?d') = None \<and>
        \<not> isStoppingRef (run (map snd (save_events env (t + b) ?d')) ?d')"
    by (auto split: if_splits)
  with True assms(1) show ?thesis
    by (simp add: storage_events_def run_Cons del: step.simps)
next
  case False
  with assms(3) have p: "stop_task d = Some AwaitSave \<or> stop_task d = None"
    by simp
  from save_events_return [OF assms(2) p, of t] False show ?thesis
    by (simp add: storage_events_def)
qed

lemma summary_events_return:
  assumes "summary_settles env = Settles a ra"
      and "storageInit_settles env = Settles b rb" and "save_settles env = Settles c rc"
      and "stop_task d \<noteq> Some AwaitStopRace"
  shows "stop_task (run (map snd (summary_events env t d)) d) = None \<and>
         (stop_task d \<noteq> None \<and> ra = Resolved () \<longrightarrow>
            \<not> isStoppingRef (run (map snd (summary_events env t d)) d))"
proof (cases "stop_task d = Some AwaitSummary")
  case True
  let ?d' = "step d (SummarySettled ra)"
  have p: "stop_task ?d' = Some AwaitStorageInit \<or> stop_task ?d' = Some AwaitSave \<or>
           stop_task ?d' = None"
    using True
    by (cases ra) (simp_all add: after_summary_def begin_save_def issue_save_def Let_def)
  have q: "ra = Resolved () \<longrightarrow> stop_task ?d' \<noteq> None"
    using True by (simp add: after_summary_def begin_save_def issue_save_def Let_def)
  from storage_events_return [OF assms(2,3) p, of "t + a"] q
  have "stop_task (run (map snd (storage_events env (t + a) ?d')) ?d') = None \<and>
        (ra = Resolved () \<longrightarrow>
           \<not> isStoppingRef (run (map snd (storage_events env (t + a) ?d')) ?d'))"
    by (auto split: if_splits)
  with True assms(1) show ?thesis
    by (simp add: summary_events_def run_Cons del: step.simps)
next
  case False
  with assms(4) have p: "stop_task d = Some AwaitStorageInit \<or> stop_task d = Some AwaitSave \<or>
           stop_task d = None"
    by (cases "stop_task d") (auto intro: stop_phase.exhaust)
  from storage_events_return [OF assms(2,3) p, of t] False show ?thesis
    by (auto simp: summary_events_def split: if_splits)
qed

subsection \<open>The stop returns once its promises have settled\<close>

lemma hook_events_no_settlement:
  "filter (\<lambda>p. is_handler_settlement (snd p) \<and> fst p \<le> t) (hook_events env d) = []"
  by (simp add: hook_events_def split: promise.splits)

lemma dashboard_events_times:
  assumes "summary_settles env = Settles a ra"
      and "storageInit_settles env = Settles b rb" and "save_settles env = Settles c rc"
  shows "list_all (\<lambda>p. is_handler_settlement (snd p) \<and> fst p \<le> stopDeadlineMs + a + b + c)
           (dashboard_events env d) \<and>
         sorted (map fst (dashboard_events env d))"
proof -
  let ?d2 = "\<lambda>r1. step (step (step d (RecordingStateChange False)) Render) (StopRaceSettled r1)"
  obtain t1 r1 where t1: "t1 \<le> stopDeadlineMs"
    and shape: "dashboard_events env d = (t1, StopRaceSettled r1) # summary_events env t1 (?d2 r1)"
    using dashboard_events_shape [of d env] by blast
  from summary_events_times [OF assms, of t1 "?d2 r1"]
  have k: "list_all (\<lambda>p. is_handler_settlement (snd p) \<and> t1 \<le> fst p \<and> fst p \<le> t1 + a + b + c)
             (summary_events env t1 (?d2 r1))"
    and s: "sorted (map fst (summary_events env t1 (?d2 r1)))"
    by (simp_all del: step.simps)
  from k t1
  have k': "list_all (\<lambda>p. is_handler_settlement (snd p) \<and> fst p \<le> stopDeadlineMs + a + b + c)
             (summary_events env t1 (?d2 r1))"
    by (auto simp: list_all_iff simp del: step.simps)
  from k have lo: "\<forall>p \<in> set (summary_events env t1 (?d2 r1)). t1 \<le> fst p"
    by (simp add: list_all_iff del: step.simps)
  show ?thesis
    unfolding shape using t1 k' s lo by (simp del: step.simps)
qed

lemma handler_settlements_until:
  assumes "summary_settles env = Settles a ra"
      and "storageInit_settles env = Settles b rb" and "save_settles env = Settles c rc"
  shows "filter is_handler_settlement (timeline_until env d t) =
           map snd (filter (\<lambda>p. fst p \<le> t) (dashboard_events env d))"
proof -
  from dashboard_events_times [OF assms, of d]
  have k: "\<forall>p \<in> set (dashboard_events env d). is_handler_settlement (snd p)"
    and s: "sorted (map fst (dashboard_events env d))"
    by (simp_all add: list_all_iff)
  have f: "filter (\<lambda>p. is_handler_settlement (snd p) \<and> fst p \<le> t) (dashboard_events env d) =
           filter (\<lambda>p. fst p \<le> t) (dashboard_events env d)"
    using k by (auto intro: filter_cong)
  have "sorted (map fst (filter (\<lambda>p. fst p \<le> t) (dashboard_events env d)))"
    using s by (rule sorted_filter)
  then have i: "sort_key fst (filter (\<lambda>p. fst p \<le> t) (dashboard_events env d)) =
           filter (\<lambda>p. fst p \<le> t) (dashboard_events env d)"
    by (rule sort_key_id_if_sorted)
  have "filter is_handler_settlement (timeline_until env d t) =
          map snd (sort_key fst
             (filter (\<lambda>p. is_handler_settlement (snd p) \<and> fst p \<le> t)
                (hook_events env d @ dashboard_events env d)))"
    by (rule timeline_until_filter) simp_all
  then show ?thesis
    by (simp only: filter_append hook_events_no_settlement f i append_Nil)
qed

lemma stop_returns_in_time:
  assumes "rendered_isRecordingSession d" and "\<not> isStoppingRef d"
      and "summary_settles env = Settles a ra"
      and "storageInit_settles env = Settles b rb" and "save_settles env = Settles c rc"
      and "stopDeadlineMs + a + b + c \<le> t"
  shows "stop_task (state_at env d t) = None \<and>
         (ra = Resolved () \<longrightarrow> \<not> isStoppingRef (state_at env d t))"
proof -
  let ?d1 = "step (step d (RecordingStateChange False)) Render"
  let ?d2 = "\<lambda>r1. step ?d1 (StopRaceSettled r1)"
  note acc = stop_accepted [OF assms(1,2)]
  obtain t1 r1 where
    shape: "dashboard_events env d = (t1, StopRaceSettled r1) # summary_events env t1 (?d2 r1)"
    using dashboard_events_shape [of d env] by blast
  from dashboard_events_times [OF assms(3,4,5), of d] assms(6)
  have "\<forall>p \<in> set (dashboard_events env d). fst p \<le> t"
    by (auto simp: list_all_iff)
  then have "filter (\<lambda>p. fst p \<le> t) (dashboard_events env d) = dashboard_events env d"
    by simp
  with handler_settlements_until [OF assms(3,4,5), of d t]
  have evs: "filter is_handler_settlement (timeline_until env d t) =
               StopRaceSettled r1 # map snd (summary_events env t1 (?d2 r1))"
    by (simp add: shape del: step.simps)
  have c: "(transcriptSegments (hook ?d1) = []) = (transcriptSegments (transcriptionRef ?d1) = [])"
    using acc by (simp del: step.simps)
  from run_view [OF timeline_until_all c refl, of env d t]
  have v: "stop_view (state_at env d t) =
           stop_view (run (map snd (summary_events env t1 (?d2 r1))) (?d2 r1))"
    by (simp add: state_at_def evs run_Cons del: step.simps)
  have p: "stop_task (?d2 r1) \<noteq> Some AwaitStopRace \<and> stop_task (?d2 r1) \<noteq> None"
    using acc stop_fields_after_stop_race [of r1 ?d1]
    by (auto simp del: step.simps(1,2))
  from summary_events_return [OF assms(3,4,5), of "?d2 r1" t1] p
  have "stop_task (run (map snd (summary_events env t1 (?d2 r1))) (?d2 r1)) = None \<and>
        (ra = Resolved () \<longrightarrow>
           \<not> isStoppingRef (run (map snd (summary_events env t1 (?d2 r1))) (?d2 r1)))"
    by (simp del: step.simps)
  with v show ?thesis
    by (simp add: stop_view_def del: step.simps)
qed

lemma summary_events_not_before:
  assumes "summary_settles env = Settles a ra"
  shows "list_all (\<lambda>p. is_summary_settled (snd p) \<longrightarrow> t + a \<le> fst p) (summary_events env t d)"
proof -
  have "list_all (\<lambda>p. is_summary_settled (snd p) \<longrightarrow> t + a \<le> fst p) (storage_events env u d')"
    for u d'
    using storage_events_kind [of env u d'] by (simp add: list_all_iff)
  then show ?thesis
    using assms by (simp add: summary_events_def del: step.simps)
qed

lemma timeline_until_summary_pending:
  assumes "stop_wait (speechServiceRef (hook d) \<noteq> None) (cleanup_settles env) = Settles t1 r1"
      and "summary_settles env = Settles a ra" and "t < t1 + a"
  shows "filter is_summary_settled (timeline_until env d t) = []"
proof -
  let ?d2 = "step (step (step d (RecordingStateChange False)) Render) (StopRaceSettled r1)"
  have shape: "dashboard_events env d = (t1, StopRaceSettled r1) # summary_events env t1 ?d2"
    using assms(1) by (simp add: dashboard_events_def del: step.simps)
  have h: "filter (\<lambda>p. is_summary_settled (snd p) \<and> fst p \<le> t) (hook_events env d) = []"
    using hook_events_kind [of env d] by (simp add: filter_empty_conv list_all_iff)
  have s: "filter (\<lambda>p. is_summary_settled (snd p) \<and> fst p \<le> t) (summary_events env t1 ?d2) = []"
    using summary_events_not_before [OF assms(2), of t1 ?d2] assms(3)
    by (auto simp: filter_empty_conv list_all_iff simp del: step.simps)
  have "filter is_summary_settled (timeline_until env d t) =
          map snd (sort_key fst
             (filter (\<lambda>p. is_summary_settled (snd p) \<and> fst p \<le> t)
                (hook_events env d @ dashboard_events env d)))"
    by (rule timeline_until_filter) simp_all
  then show ?thesis
    by (simp add: shape h s del: step.simps)
qed

subsection \<open>Unfolding the concrete runs\<close>

lemmas dash_defs = initial_dashboard_def
        initial_transcription_def run_def handleRecordingStateChange_def forceStop_begin_def
        startListening_begin_def startListening_settle_def after_start_def render_def
        onStatusChange_def onTranscriptUpdate_def onSegmentComplete_def
        checkForSummaryGeneration_def autoSummaryTimeout_def
        after_stop_race_def begin_summary_def after_summary_def begin_save_def issue_save_def
        after_save_def finish_stop_def addNotification_def getAllSegments_def Let_def

lemma ordinary_session_outcome:
  "map transcript
     (saveMeetingSession_calls (run ordinary_session (initial_dashboard ready_hook)))
     = [[seg_hello, seg_world]] \<and>
   generateSummary_calls (run ordinary_session (initial_dashboard ready_hook))
     = [[seg_hello, seg_world]] \<and>
   map fst (notifications (run ordinary_session (initial_dashboard ready_hook)))
     = [''Recording session started'', ''Session saved successfully''] \<and>
   \<not> isStoppingRef (run ordinary_session (initial_dashboard ready_hook)) \<and>
   \<not> isRecordingSession (run ordinary_session (initial_dashboard ready_hook)) \<and>
   \<not> isListening (hook (run ordinary_session (initial_dashboard ready_hook))) \<and>
   getFullTranscript (transcriptionRef (run ordinary_session (initial_dashboard ready_hook)))
     = ''hello world''"
  by (simp add: ordinary_session_def ready_hook_def seg_hullo_def seg_hello_def seg_world_def
        dash_defs forceStop_settle_def getFullTranscript_def)



section \<open>Claims about the stop sequence\<close>




text \<open>
  Claim C3, as the code has it. Times are milliseconds after the recording control reported
  that recording has stopped, on a dashboard that accepts the stop and whose hook holds a
  speech service whose \<^verbatim>\<open>cleanup()\<close> never settles; nothing happens but the settlements of
  the stop and the renders that follow them. The clock of the state at \<open>t\<close> has advanced
  by \<open>t\<close>. From the start the session is not recording and the hook neither listening nor
  paused. Before the stop deadline the handler is suspended at the race and has reported
  nothing; from the deadline on it has left the race, the timer's rejection caught and
  reported as one warning. The service handle is not dropped at the deadline: the hook
  holds it until its own timer fires at \<open>forceStopTimeoutMs\<close> and drops it from then on.
  The awaits after the race have no timer:
  with segments held, the stopping flag stays set at every time when the summary never
  settles, and until the deadline plus the time the summary takes when it does. When the
  summary, the storage initialisation and the save settle, the handler has returned by the
  deadline plus the times the three take, with the stopping flag reset unless the summary
  rejected.
\<close>

theorem stop_with_hung_cleanup:
  assumes "rendered_isRecordingSession d" and "\<not> isStoppingRef d"
      and "speechServiceRef (hook d) \<noteq> None" and "cleanup_settles env = Never"
  shows "clock (state_at env d t) = clock d + t \<and>
         \<not> isRecordingSession (state_at env d t) \<and>
         \<not> isListening (hook (state_at env d t)) \<and> \<not> isPaused (hook (state_at env d t)) \<and>
         (t < stopDeadlineMs \<longrightarrow>
            stop_task (state_at env d t) = Some AwaitStopRace \<and>
            notifications (state_at env d t) = notifications d) \<and>
         (stopDeadlineMs \<le> t \<longrightarrow>
            stop_task (state_at env d t) \<noteq> Some AwaitStopRace \<and>
            warnings (state_at env d t) =
              warnings d @
                [(''Warning: Transcription may not have stopped cleanly'', ''warning'')]) \<and>
         (t < forceStopTimeoutMs \<longrightarrow>
            speechServiceRef (hook (state_at env d t)) = speechServiceRef (hook d)) \<and>
         (forceStopTimeoutMs \<le> t \<longrightarrow> speechServiceRef (hook (state_at env d t)) = None) \<and>
         (summary_settles env = Never \<and> transcriptSegments (hook d) \<noteq> [] \<longrightarrow>
            isStoppingRef (state_at env d t)) \<and>
         (transcriptSegments (hook d) \<noteq> [] \<and> summary_settles env = Settles a ra \<and>
          t < stopDeadlineMs + a \<longrightarrow>
            isStoppingRef (state_at env d t)) \<and>
         (summary_settles env = Settles a ra \<and> storageInit_settles env = Settles b rb \<and>
          save_settles env = Settles c rc \<and> stopDeadlineMs + a + b + c \<le> t \<longrightarrow>
            stop_task (state_at env d t) = None \<and>
            (ra = Resolved () \<longrightarrow> \<not> isStoppingRef (state_at env d t)))"
proof -
  let ?d1 = "step (step d (RecordingStateChange False)) Render"
  let ?evs = "timeline_until env d t"
  note acc = stop_accepted [OF assms(1,2)]
  have all: "list_all timeline_event ?evs" by (rule timeline_until_all)
  have wait: "stop_wait (speechServiceRef (hook d) \<noteq> None) (cleanup_settles env) =
                Settles stopDeadlineMs (Rejected ''Stop timeout'')"
    using assms(3,4)
    by (simp add: stop_wait_def forceStop_promise_def timeoutPromise_def stopDeadlineMs_def
          forceStopTimeoutMs_def)
  note race = timeline_until_race [OF wait, of t]
  note fs = timeline_until_forceStop [OF assms(3,4), of t]
  have clk: "clock (state_at env d t) = clock d + t"
    by (simp add: state_at_clock handler_clock del: step.simps)
  have flags: "\<not> isRecordingSession (state_at env d t) \<and>
         \<not> isListening (hook (state_at env d t)) \<and> \<not> isPaused (hook (state_at env d t))"
    using run_timeline_frame [OF all, of ?d1] acc assms(3)
    by (simp add: state_at_run del: step.simps)
  have before: "stop_task (state_at env d t) = Some AwaitStopRace \<and>
            notifications (state_at env d t) = notifications d" if "t < stopDeadlineMs"
  proof -
    from that race have "filter is_stop_race_settled ?evs = []" by simp
    from run_waiting [OF all this, of ?d1] acc show ?thesis
      by (simp add: state_at_run del: step.simps)
  qed
  have after: "stop_task (state_at env d t) \<noteq> Some AwaitStopRace \<and>
            warnings (state_at env d t) =
              warnings d @
                [(''Warning: Transcription may not have stopped cleanly'', ''warning'')]"
    if "stopDeadlineMs \<le> t"
  proof -
    from that race
    have "filter is_stop_race_settled ?evs = [StopRaceSettled (Rejected ''Stop timeout'')]"
      by simp
    from run_race_settled [OF all this, of ?d1 "''Stop timeout''"] acc show ?thesis
      by (simp add: state_at_run warnings_def del: step.simps)
  qed
  have held: "speechServiceRef (hook (state_at env d t)) = speechServiceRef (hook d)"
    if "t < forceStopTimeoutMs"
  proof -
    from that fs have "filter is_forceStop_settled ?evs = []" by simp
    from run_hook_frame [OF all this, of ?d1] acc show ?thesis
      by (simp add: state_at_run del: step.simps)
  qed
  have dropped: "speechServiceRef (hook (state_at env d t)) = None"
    if "forceStopTimeoutMs \<le> t"
  proof -
    from that fs
    have "filter is_forceStop_settled ?evs = [ForceStopSettled (Rejected ''Force stop timeout'')]"
      by simp
    from run_handle_dropped [OF all this, of ?d1] acc assms(3) show ?thesis
      by (simp add: state_at_run del: step.simps)
  qed
  have stuck: "isStoppingRef (state_at env d t)"
    if "summary_settles env = Never" and "transcriptSegments (hook d) \<noteq> []"
  proof -
    have "filter is_summary_settled ?evs = []"
      using that(1) by (rule timeline_until_no_summary)
    from run_awaiting_summary [OF all this, of ?d1] acc that(2) show ?thesis
      by (simp add: state_at_run del: step.simps)
  qed
  have pending: "isStoppingRef (state_at env d t)"
    if "transcriptSegments (hook d) \<noteq> []" and "summary_settles env = Settles a ra"
      and "t < stopDeadlineMs + a"
  proof -
    have "filter is_summary_settled ?evs = []"
      using wait that(2,3) by (rule timeline_until_summary_pending)
    from run_awaiting_summary [OF all this, of ?d1] acc that(1) show ?thesis
      by (simp add: state_at_run del: step.simps)
  qed
  have returned: "stop_task (state_at env d t) = None \<and>
                  (ra = Resolved () \<longrightarrow> \<not> isStoppingRef (state_at env d t))"
    if "summary_settles env = Settles a ra" and "storageInit_settles env = Settles b rb"
      and "save_settles env = Settles c rc" and "stopDeadlineMs + a + b + c \<le> t"
    using assms(1,2) that by (rule stop_returns_in_time)
  show ?thesis
  proof (intro conjI impI)
    show "clock (state_at env d t) = clock d + t" by (rule clk)
    show "\<not> isRecordingSession (state_at env d t)" using flags by simp
    show "\<not> isListening (hook (state_at env d t))" using flags by simp
    show "\<not> isPaused (hook (state_at env d t))" using flags by simp
  next
    assume "t < stopDeadlineMs"
    from before [OF this]
    show "stop_task (state_at env d t) = Some AwaitStopRace"
      and "notifications (state_at env d t) = notifications d"
      by simp_all
  next
    assume "stopDeadlineMs \<le> t"
    from after [OF this]
    show "stop_task (state_at env d t) \<noteq> Some AwaitStopRace"
      and "warnings (state_at env d t) =
              warnings d @
                [(''Warning: Transcription may not have stopped cleanly'', ''warning'')]"
      by simp_all
  next
    assume "t < forceStopTimeoutMs"
    then show "speechServiceRef (hook (state_at env d t)) = speechServiceRef (hook d)"
      by (rule held)
  next
    assume "forceStopTimeoutMs \<le> t"
    then show "speechServiceRef (hook (state_at env d t)) = None"
      by (rule dropped)
  next
    assume "summary_settles env = Never \<and> transcriptSegments (hook d) \<noteq> []"
    then show "isStoppingRef (state_at env d t)"
      using stuck by simp
  next
    assume "transcriptSegments (hook d) \<noteq> [] \<and> summary_settles env = Settles a ra \<and>
            t < stopDeadlineMs + a"
    then show "isStoppingRef (state_at env d t)"
      using pending by simp
  next
    assume h: "summary_settles env = Settles a ra \<and> storageInit_settles env = Settles b rb \<and>
               save_settles env = Settles c rc \<and> stopDeadlineMs + a + b + c \<le> t"
    with returned show "stop_task (state_at env d t) = None"
      by simp
    assume "ra = Resolved ()"
    with h returned show "\<not> isStoppingRef (state_at env d t)"
      by simp
  qed
qed

theorem stop_with_hung_cleanup_witness:
  "rendered_isRecordingSession recording_dashboard \<and> \<not> isStoppingRef recording_dashboard \<and>
   speechServiceRef (hook recording_dashboard) = Some 0 \<and>
   isListening (hook recording_dashboard) \<and>
   cleanup_settles hung_env = Never \<and> summary_settles hung_env = Never \<and>
   transcriptSegments (hook recording_dashboard) = [seg_hello, seg_world] \<and>
   clock (state_at hung_env recording_dashboard 2999) = 2999 \<and>
   \<not> isListening (hook (state_at hung_env recording_dashboard 2999)) \<and>
   stop_task (state_at hung_env recording_dashboard 2999) = Some AwaitStopRace \<and>
   notifications (state_at hung_env recording_dashboard 2999) = [] \<and>
   stop_task (state_at hung_env recording_dashboard 3000) \<noteq> Some AwaitStopRace \<and>
   warnings (state_at hung_env recording_dashboard 3000) =
     [(''Warning: Transcription may not have stopped cleanly'', ''warning'')] \<and>
   speechServiceRef (hook (state_at hung_env recording_dashboard 3000)) = Some 0 \<and>
   speechServiceRef (hook (state_at hung_env recording_dashboard 5000)) = None \<and>
   isStoppingRef (state_at hung_env recording_dashboard 3600000) \<and>
   cleanup_settles slow_summary_env = Never \<and>
   summary_settles slow_summary_env = Settles 2500 (Resolved ()) \<and>
   storageInit_settles slow_summary_env = Settles 0 (Resolved ()) \<and>
   save_settles slow_summary_env = Settles 500 (Resolved ()) \<and>
   isStoppingRef (state_at slow_summary_env recording_dashboard 5499) \<and>
   stop_task (state_at slow_summary_env recording_dashboard 6000) = None \<and>
   \<not> isStoppingRef (state_at slow_summary_env recording_dashboard 6000)"
proof -
  have a: "rendered_isRecordingSession recording_dashboard"
    by (simp add: recording_dashboard_def)
  have b: "\<not> isStoppingRef recording_dashboard"
    by (simp add: recording_dashboard_def initial_dashboard_def)
  have c: "speechServiceRef (hook recording_dashboard) = Some 0"
    by (simp add: recording_dashboard_def initial_dashboard_def recording_hook_def)
  then have c': "speechServiceRef (hook recording_dashboard) \<noteq> None"
    by simp
  have l: "isListening (hook recording_dashboard)"
    by (simp add: recording_dashboard_def initial_dashboard_def recording_hook_def)
  have e: "cleanup_settles hung_env = Never" "summary_settles hung_env = Never"
    by (simp_all add: hung_env_def)
  have f: "cleanup_settles slow_summary_env = Never"
    "summary_settles slow_summary_env = Settles 2500 (Resolved ())"
    "storageInit_settles slow_summary_env = Settles 0 (Resolved ())"
    "save_settles slow_summary_env = Settles 500 (Resolved ())"
    by (simp_all add: slow_summary_env_def)
  have s: "transcriptSegments (hook recording_dashboard) = [seg_hello, seg_world]"
    by (simp add: recording_dashboard_def initial_dashboard_def recording_hook_def)
  have n: "notifications recording_dashboard = []" "clock recording_dashboard = 0"
    by (simp_all add: recording_dashboard_def initial_dashboard_def)
  show ?thesis
    using a b c l e f s n
      stop_with_hung_cleanup [OF a b c' e(1), where t = 2999]
      stop_with_hung_cleanup [OF a b c' e(1), where t = 3000]
      stop_with_hung_cleanup [OF a b c' e(1), where t = 5000]
      stop_with_hung_cleanup [OF a b c' e(1), where t = 3600000]
      stop_with_hung_cleanup [OF a b c' f(1), where t = 5499 and a = 2500 and ra = "Resolved ()"]
      stop_with_hung_cleanup [OF a b c' f(1), where t = 6000 and a = 2500 and ra = "Resolved ()"
        and b = 0 and rb = "Resolved ()" and c = 500 and rc = "Resolved ()"]
    by (simp add: stopDeadlineMs_def forceStopTimeoutMs_def warnings_def del: step.simps)
qed

text \<open>
  Claim C3 as stated fails: the stop is not over within the stop deadline and a small
  epsilon, and the handle is not dropped at the deadline. With \<^verbatim>\<open>cleanup()\<close> hanging, a
  summary that takes two and a half seconds and a save that takes half a second, the
  handler is still suspended at the summary a tenth of a second after the deadline, the
  stopping flag set and the hook still holding the service handle; the handle is held until
  the hook's own timer fires at five seconds, and the stop returns at six seconds.
\<close>

theorem stop_unfinished_after_deadline_counterexample:
  "cleanup_settles slow_summary_env = Never \<and>
   stopDeadlineMs = 3000 \<and>
   stop_task (state_at slow_summary_env recording_dashboard 3100) = Some AwaitSummary \<and>
   isStoppingRef (state_at slow_summary_env recording_dashboard 3100) \<and>
   speechServiceRef (hook (state_at slow_summary_env recording_dashboard 3100)) = Some 0 \<and>
   speechServiceRef (hook (state_at slow_summary_env recording_dashboard 4999)) = Some 0 \<and>
   speechServiceRef (hook (state_at slow_summary_env recording_dashboard 5000)) = None \<and>
   isStoppingRef (state_at slow_summary_env recording_dashboard 5999) \<and>
   stop_task (state_at slow_summary_env recording_dashboard 5999) = Some AwaitSave \<and>
   \<not> isStoppingRef (state_at slow_summary_env recording_dashboard 6000) \<and>
   stop_task (state_at slow_summary_env recording_dashboard 6000) = None"
  by (simp add: state_at_def timeline_until_def stop_timeline_def hook_events_def
        dashboard_events_def summary_events_def storage_events_def save_events_def
        slow_summary_env_def stop_wait_def forceStop_promise_def timeoutPromise_def
        stopDeadlineMs_def forceStopTimeoutMs_def recording_dashboard_def recording_hook_def
        dash_defs forceStop_settle_def)


text \<open>
  Claim C4, as the code has it. When the race of the stop has settled, one
  \<^verbatim>\<open>generateSummary\<close> request is issued exactly if \<^verbatim>\<open>transcriptSegments\<close>, as the hook last
  rendered it, is not empty, whether its segments are final or not; the request is handed
  that whole array, and the later steps of the stop issue no further request.
\<close>

theorem final_summary_iff_segments_held:
  assumes "stop_task d = Some AwaitStopRace"
  shows "generateSummary_calls (step d (StopRaceSettled result)) =
           (if transcriptSegments (transcriptionRef d) \<noteq> []
            then generateSummary_calls d @ [transcriptSegments (transcriptionRef d)]
            else generateSummary_calls d) \<and>
         generateSummary_calls (step d' (SummarySettled r1)) = generateSummary_calls d' \<and>
         generateSummary_calls (step d' (StorageInitSettled r2)) = generateSummary_calls d' \<and>
         generateSummary_calls (step d' (SaveSettled r3)) = generateSummary_calls d'"
  using assms by (simp add: summary_calls_step del: step.simps)

theorem final_summary_iff_segments_held_witness:
  "stop_task stopping_dashboard = Some AwaitStopRace \<and>
   generateSummary_calls (step stopping_dashboard (StopRaceSettled (Resolved True)))
     = [[seg_hello, seg_world]] \<and>
   stop_task (run interim_only_session (initial_dashboard ready_hook)) = Some AwaitStopRace \<and>
   generateSummary_calls
     (step (run interim_only_session (initial_dashboard ready_hook)) (StopRaceSettled (Resolved True)))
     = [[seg_hullo]]"
proof -
  have a: "stop_task stopping_dashboard = Some AwaitStopRace"
    by (simp add: stopping_dashboard_def recording_dashboard_def recording_hook_def dash_defs)
  have b: "transcriptSegments (transcriptionRef stopping_dashboard) = [seg_hello, seg_world] \<and>
           generateSummary_calls stopping_dashboard = []"
    by (simp add: stopping_dashboard_def recording_dashboard_def recording_hook_def dash_defs)
  have c: "stop_task (run interim_only_session (initial_dashboard ready_hook)) = Some AwaitStopRace"
    by (simp add: interim_only_session_def ready_hook_def seg_hullo_def dash_defs)
  have d: "transcriptSegments (transcriptionRef (run interim_only_session (initial_dashboard ready_hook)))
             = [seg_hullo] \<and>
           generateSummary_calls (run interim_only_session (initial_dashboard ready_hook)) = []"
    by (simp add: interim_only_session_def ready_hook_def seg_hullo_def dash_defs)
  show ?thesis
    using a b c d
      final_summary_iff_segments_held [OF a, of "Resolved True"]
      final_summary_iff_segments_held [OF c, of "Resolved True"]
    by simp
qed

text \<open>
  Claim C4 as stated fails: a session is stopped while its only segment is still interim.
  The buffer holds no final segment, and the final summary is requested all the same, with
  the interim segment as its input.
\<close>

theorem final_summary_without_final_segment_counterexample:
  "getAllSegments (transcriptionRef (run interim_only_session (initial_dashboard ready_hook))) = [] \<and>
   stop_task (run interim_only_session (initial_dashboard ready_hook)) = Some AwaitStopRace \<and>
   generateSummary_calls (run interim_only_session (initial_dashboard ready_hook)) = [] \<and>
   generateSummary_calls
     (run (interim_only_session @ [StopRaceSettled (Resolved True)]) (initial_dashboard ready_hook))
     = [[seg_hullo]]"
  by (simp add: interim_only_session_def ready_hook_def seg_hullo_def dash_defs)

text \<open>
  Claim C5, as the code has it. The claim names two kinds of request, and among the events
  above a summarization request is issued at these two: when the race of the stop settles
  (\<^verbatim>\<open>generateSummary\<close>) and when the armed auto-summary timer fires
  (\<^verbatim>\<open>autoGenerateSummary\<close>), each time provided \<^verbatim>\<open>transcriptSegments\<close> is not empty.
  Either request is handed \<^verbatim>\<open>transcriptSegments\<close> exactly as the hook last rendered it: the
  whole array, interim segment included. The component has a third call site, which is not
  among the events: \<^verbatim>\<open>handleAIConfiguration\<close> calls \<^verbatim>\<open>generateSummary\<close> with the same
  unfiltered array once the summary service is configured.
\<close>

theorem summary_requests_whole_collection:
  "generateSummary_calls (step d ev) =
     (if is_stop_race_settled ev \<and> stop_task d = Some AwaitStopRace \<and>
         transcriptSegments (transcriptionRef d) \<noteq> []
      then generateSummary_calls d @ [transcriptSegments (transcriptionRef d)]
      else generateSummary_calls d) \<and>
   autoGenerateSummary_calls (step d ev) =
     (if ev = AutoSummaryTimeout \<and> timeout_armed d \<and>
         transcriptSegments (transcriptionRef d) \<noteq> []
      then autoGenerateSummary_calls d @ [transcriptSegments (transcriptionRef d)]
      else autoGenerateSummary_calls d)"
  using summary_calls_step [of d ev] auto_calls_step [of d ev] by (rule conjI)

theorem summary_requests_whole_collection_witness:
  "transcriptSegments (transcriptionRef stopping_dashboard) = [seg_hello, seg_world] \<and>
   generateSummary_calls (step stopping_dashboard (StopRaceSettled (Rejected ''Stop timeout'')))
     = [[seg_hello, seg_world]] \<and>
   autoGenerateSummary_calls (step stopping_dashboard (StopRaceSettled (Rejected ''Stop timeout'')))
     = []"
proof -
  have a: "stop_task stopping_dashboard = Some AwaitStopRace"
    by (simp add: stopping_dashboard_def recording_dashboard_def recording_hook_def dash_defs)
  have b: "transcriptSegments (transcriptionRef stopping_dashboard) = [seg_hello, seg_world] \<and>
           generateSummary_calls stopping_dashboard = [] \<and>
           autoGenerateSummary_calls stopping_dashboard = []"
    by (simp add: stopping_dashboard_def recording_dashboard_def recording_hook_def dash_defs)
  show ?thesis
    using a b
      summary_requests_whole_collection
        [of stopping_dashboard "StopRaceSettled (Rejected ''Stop timeout'')"]
    by simp
qed

text \<open>
  Claim C5 as stated fails: a final segment \<open>hello\<close> is followed by an interim segment
  \<open>wor\<close>; the auto-summary timer fires and the session is stopped. Both requests carry the
  interim text.
\<close>

theorem summary_request_with_interim_counterexample:
  "map (map seg_text)
     (generateSummary_calls (run interim_tail_session (initial_dashboard ready_hook)))
     = [[''hello'', ''wor'']] \<and>
   map (map isFinal)
     (generateSummary_calls (run interim_tail_session (initial_dashboard ready_hook)))
     = [[True, False]] \<and>
   map (map seg_text)
     (autoGenerateSummary_calls (run interim_tail_session (initial_dashboard ready_hook)))
     = [[''hello'', ''wor'']] \<and>
   map (map isFinal)
     (autoGenerateSummary_calls (run interim_tail_session (initial_dashboard ready_hook)))
     = [[True, False]]"
  by (simp add: interim_tail_session_def ready_hook_def seg_hullo_def seg_hello_def seg_wor_def
        dash_defs)

end
